theory Spec2Isabelle
  imports Main "HOL-Library.Word"
begin

section \<open>Remote Output Service directory of bb-clientd\<close>

text \<open>
  A shallow embedding of \<^verbatim>\<open>pkg/filesystem/virtual/remote_output_service_directory.go\<close>.
  The registry (two maps, the change counter and the circular list of output paths) is
  embedded with an explicit store of \<^verbatim>\<open>outputPathState\<close> objects, because the code
  links and unlinks them through pointers. Everything the file calls in other
  packages (the directory tree of an output path, the Content Addressable Storage, the
  path library) is a collaborator: its operations are the fields of a record
  \<open>K\<close> that every function takes, acting on a state \<open>'w\<close> of the collaborators that
  is threaded through the calls in the order of the source.
\<close>

subsection \<open>Errors\<close>

text \<open>
  gRPC status codes and the \<^verbatim>\<open>syscall\<close> error numbers the file compares against.
  Messages are not modelled. A Go panic (nil dereference, the explicit
  \<^verbatim>\<open>panic\<close> of BatchStat) is the value \<open>Panic\<close>.
\<close>

datatype code = InvalidArgument | FailedPrecondition | NotFound | Internal | Unknown | OtherCode nat

datatype errno = ENOENT | ENOTDIR | EINVAL | ELOOP | OtherErrno nat

datatype error = Status code | Errno errno | Panic

text \<open>\<^verbatim>\<open>status.Code(err)\<close>: the code of a status error, Unknown for any other error.\<close>

fun status_Code :: "error \<Rightarrow> code" where
  "status_Code (Status c) = c"
| "status_Code (Errno e) = Unknown"
| "status_Code Panic = Unknown"

text \<open>\<^verbatim>\<open>util.StatusWrap\<close> prefixes the message and keeps the code.\<close>

fun StatusWrap :: "error \<Rightarrow> error" where
  "StatusWrap Panic = Panic"
| "StatusWrap e = Status (status_Code e)"

subsection \<open>Digests and paths\<close>

type_synonym digest_function = "string \<times> nat"
  \<comment> \<open>\<^verbatim>\<open>digest.Function\<close>: instance name and hashing algorithm\<close>

record digest =
  digest_function_of :: digest_function
  hash :: string
  sizeBytes :: int

text \<open>\<^verbatim>\<open>Digest.UsesDigestFunction\<close>: same instance name and same algorithm.\<close>

definition UsesDigestFunction :: "digest \<Rightarrow> digest_function \<Rightarrow> bool" where
  "UsesDigestFunction d f = (digest_function_of d = f)"

type_synonym component = string

text \<open>\<^verbatim>\<open>path.NewComponent\<close>: a file name is not empty, not a dot entry and has no slash.\<close>

definition NewComponent :: "string \<Rightarrow> component option" where
  "NewComponent name =
     (if name = [] \<or> name = ''.'' \<or> name = ''..'' \<or> CHR ''/'' \<in> set name
      then None else Some name)"

text \<open>
  A path as \<^verbatim>\<open>path.Resolve\<close> reads it: whether it starts with a slash, and its
  components between slashes. \<open>Skip\<close> is an empty component or a single dot,
  \<open>Up\<close> is a double dot. A path that holds a null byte is refused.
\<close>

datatype pcomp = Skip | Up | Name component

record ppath =
  absolute :: bool
  components :: "pcomp list"

fun split_slash :: "string \<Rightarrow> string list" where
  "split_slash [] = [[]]"
| "split_slash (c # cs) =
     (if c = CHR ''/'' then [] # split_slash cs
      else (case split_slash cs of
              [] \<Rightarrow> [[c]]
            | x # xs \<Rightarrow> (c # x) # xs))"

definition to_pcomp :: "string \<Rightarrow> pcomp" where
  "to_pcomp x = (if x = [] \<or> x = ''.'' then Skip else if x = ''..'' then Up else Name x)"

definition parse_path :: "string \<Rightarrow> error + ppath" where
  "parse_path p =
     (if CHR 0x00 \<in> set p then Inl (Status InvalidArgument)
      else Inr \<lparr>absolute = (case p of [] \<Rightarrow> False | c # cs \<Rightarrow> c = CHR ''/''),
                components = map to_pcomp (split_slash p)\<rparr>)"

type_synonym directory = nat
type_synonym leaf = nat
type_synonym casfilefactory = nat

type_synonym virtual_root = "pcomp list \<Rightarrow> pcomp list option"
  \<comment> \<open>\<^verbatim>\<open>path.VirtualRootScopeWalkerFactory\<close>: for the components of an absolute path,
      the components left once the path has entered the output path, or None when
      the path stays outside of it\<close>

subsection \<open>Collaborators\<close>

datatype filter_node = LeafNode nat "digest list" | DirectoryNode nat "error + digest list"
  \<comment> \<open>a node handed to the callback of FilterChildren: the identity of its
      ChildRemover, and what GetContainingDigests returns for it\<close>

datatype initial_node = FromLeaf leaf | FromDirectory digest

datatype directory_child = ChildDirectory directory | ChildLeaf leaf

datatype file_status =
    FS_File "digest option"
  | FS_Symlink string
  | FS_Directory "nat option"
  | FS_External "string option"

datatype event =
    OnScopeEvent bool "pcomp list"
  | OnDirectoryEvent bool component bool
  | OnTerminalEvent bool component bool
  | OnUpEvent bool
  \<comment> \<open>the calls that the path builder of BatchStat sees: the first flag of a
      component says that the stat walker answered it (the void walker otherwise),
      the last that the answer was a symbolic link\<close>

record 'w collaborators =
  RecommendedFindMissingDigestsCount :: nat
  FindMissing :: "digest set \<Rightarrow> 'w \<Rightarrow> (error + digest list) \<times> 'w"
  FilterChildren :: "directory \<Rightarrow> 'w \<Rightarrow> filter_node list \<times> error option"
  ChildRemover :: "nat \<Rightarrow> 'w \<Rightarrow> error option \<times> 'w"
  NewCASFileFactory :: "'w \<Rightarrow> casfilefactory \<times> 'w"
  StartInitialBuild :: "component \<Rightarrow> casfilefactory \<Rightarrow> digest_function \<Rightarrow> 'w \<Rightarrow> directory \<times> 'w"
  OutputPathFactory_Clean :: "component \<Rightarrow> 'w \<Rightarrow> error option \<times> 'w"
  RemoveAllChildren :: "directory \<Rightarrow> bool \<Rightarrow> 'w \<Rightarrow> error option \<times> 'w"
  Directory_FinalizeBuild :: "directory \<Rightarrow> digest_function \<Rightarrow> 'w \<Rightarrow> 'w"
  NotifyRemoval :: "component \<Rightarrow> 'w \<Rightarrow> 'w"
  NewVirtualRootScopeWalkerFactory :: "pcomp list \<Rightarrow> component \<Rightarrow> (string \<times> string) list \<Rightarrow> error + virtual_root"
  GetDigestFunction :: "string \<Rightarrow> nat \<Rightarrow> error + digest_function"
  NewDigestFromProto :: "digest_function \<Rightarrow> string \<times> int \<Rightarrow> error + digest"
  CreateAndEnterPrepopulatedDirectory :: "directory \<Rightarrow> component \<Rightarrow> 'w \<Rightarrow> (error + directory) \<times> 'w"
  CreateChildren :: "directory \<Rightarrow> component \<Rightarrow> initial_node \<Rightarrow> bool \<Rightarrow> 'w \<Rightarrow> error option \<times> 'w"
  LookupChild :: "directory \<Rightarrow> component \<Rightarrow> 'w \<Rightarrow> (error + directory_child) \<times> 'w"
  LookupFile :: "casfilefactory \<Rightarrow> digest \<Rightarrow> bool \<Rightarrow> 'w \<Rightarrow> leaf \<times> 'w"
  LookupSymlink :: "string \<Rightarrow> 'w \<Rightarrow> leaf \<times> 'w"
  Unlink :: "leaf \<Rightarrow> 'w \<Rightarrow> 'w"
  Readlink :: "leaf \<Rightarrow> 'w \<Rightarrow> error + string"
  GetOutputServiceFileStatus :: "leaf \<Rightarrow> digest_function option \<Rightarrow> 'w \<Rightarrow> (error + file_status) \<times> 'w"
  GetLastDataModificationTime :: "directory \<Rightarrow> 'w \<Rightarrow> nat option"
  maximumSymlinkRedirections :: nat
  Builder_String :: "event list \<Rightarrow> string"

subsection \<open>The missing-blob filter\<close>

text \<open>
  The two kinds of call the filter makes on its collaborators are recorded, in order,
  in a list of events that the functions below return next to their result: the set
  given to each FindMissing call with the answer of the store, and the node of each
  ChildRemover call. The list is an observation of the run; no function reads it.
\<close>

datatype filter_event = FindMissingCall "digest set" "error + digest list" | ChildRemoverCall nat

type_synonym queue = "(digest \<times> nat list) list"
  \<comment> \<open>\<^verbatim>\<open>map[digest.Digest][]func() error\<close>, one pair per key\<close>

text \<open>\<^verbatim>\<open>queue[blobDigest] = append(queue[blobDigest], removeFunc)\<close>\<close>

fun queue_append :: "digest \<Rightarrow> nat \<Rightarrow> queue \<Rightarrow> queue" where
  "queue_append k r [] = [(k, [r])]"
| "queue_append k r ((k', rs) # q) =
     (if k' = k then (k', rs @ [r]) # q else (k', rs) # queue_append k r q)"

text \<open>\<^verbatim>\<open>queue[digest]\<close>: the removers queued under a digest, none for a digest that is no key.\<close>

definition queue_lookup :: "queue \<Rightarrow> digest \<Rightarrow> nat list" where
  "queue_lookup q k = (case map_of q k of None \<Rightarrow> [] | Some rs \<Rightarrow> rs)"

text \<open>The inner loop of findMissingAndRemove: the removers of one missing digest.\<close>

fun call_removers ::
  "'w collaborators \<Rightarrow> nat list \<Rightarrow> filter_event list \<Rightarrow> 'w \<Rightarrow> error option \<times> filter_event list \<times> 'w" where
  "call_removers K [] tr w = (None, tr, w)"
| "call_removers K (r # rs) tr w =
     (case ChildRemover K r w of
        (Some err, w') \<Rightarrow> (Some (StatusWrap err), tr @ [ChildRemoverCall r], w')
      | (None, w') \<Rightarrow> call_removers K rs (tr @ [ChildRemoverCall r]) w')"

text \<open>The outer loop of findMissingAndRemove, over \<^verbatim>\<open>missing.Items()\<close>.\<close>

fun remove_missing ::
  "'w collaborators \<Rightarrow> queue \<Rightarrow> digest list \<Rightarrow> filter_event list \<Rightarrow> 'w \<Rightarrow> error option \<times> filter_event list \<times> 'w" where
  "remove_missing K q [] tr w = (None, tr, w)"
| "remove_missing K q (m # ms) tr w =
     (case call_removers K (queue_lookup q m) tr w of
        (Some err, tr', w') \<Rightarrow> (Some err, tr', w')
      | (None, tr', w') \<Rightarrow> remove_missing K q ms tr' w')"

definition findMissingAndRemove ::
  "'w collaborators \<Rightarrow> queue \<Rightarrow> filter_event list \<Rightarrow> 'w \<Rightarrow> error option \<times> filter_event list \<times> 'w" where
  "findMissingAndRemove K q tr w =
     (case FindMissing K (set (map fst q)) w of
        (Inl err, w') \<Rightarrow>
          (Some (StatusWrap err), tr @ [FindMissingCall (set (map fst q)) (Inl err)], w')
      | (Inr missing, w') \<Rightarrow>
          remove_missing K q missing (tr @ [FindMissingCall (set (map fst q)) (Inr missing)]) w')"

text \<open>
  The second loop of the callback (lines 221 to 231): every digest of the node is
  queued, after the queue has been flushed when it holds the recommended number of
  digests. The result is savedErr, the queue, the events and the collaborators' state.
\<close>

fun enqueue_digests ::
  "'w collaborators \<Rightarrow> nat \<Rightarrow> digest list \<Rightarrow> queue \<Rightarrow> filter_event list \<Rightarrow> 'w
    \<Rightarrow> error option \<times> queue \<times> filter_event list \<times> 'w" where
  "enqueue_digests K r [] q tr w = (None, q, tr, w)"
| "enqueue_digests K r (blobDigest # ds) q tr w =
     (if length q \<ge> RecommendedFindMissingDigestsCount K then
        (case findMissingAndRemove K q tr w of
           (Some err, tr', w') \<Rightarrow> (Some err, q, tr', w')
         | (None, tr', w') \<Rightarrow> enqueue_digests K r ds (queue_append blobDigest r []) tr' w')
      else enqueue_digests K r ds (queue_append blobDigest r q) tr w)"

text \<open>\<^verbatim>\<open>removeFunc()\<close> as the callback calls it itself, wrapping its error.\<close>

definition remove_node ::
  "'w collaborators \<Rightarrow> nat \<Rightarrow> queue \<Rightarrow> filter_event list \<Rightarrow> 'w
    \<Rightarrow> bool \<times> error option \<times> queue \<times> filter_event list \<times> 'w" where
  "remove_node K r q tr w =
     (case ChildRemover K r w of
        (Some err, w') \<Rightarrow> (False, Some (StatusWrap err), q, tr @ [ChildRemoverCall r], w')
      | (None, w') \<Rightarrow> (True, None, q, tr @ [ChildRemoverCall r], w'))"

text \<open>The part of the callback after the digests of the node are known (lines 205 to 232).\<close>

definition filter_digests ::
  "'w collaborators \<Rightarrow> digest_function \<Rightarrow> nat \<Rightarrow> digest list \<Rightarrow> queue \<Rightarrow> filter_event list \<Rightarrow> 'w
    \<Rightarrow> bool \<times> error option \<times> queue \<times> filter_event list \<times> 'w" where
  "filter_digests K digestFunction r digests q tr w =
     (case find (\<lambda>blobDigest. \<not> UsesDigestFunction blobDigest digestFunction) digests of
        Some blobDigest \<Rightarrow> remove_node K r q tr w
      | None \<Rightarrow>
          (case enqueue_digests K r digests q tr w of
             (Some err, q', tr', w') \<Rightarrow> (False, Some err, q', tr', w')
           | (None, q', tr', w') \<Rightarrow> (True, None, q', tr', w')))"

text \<open>
  The callback given to FilterChildren (lines 184 to 233). It returns whether the
  traversal goes on, savedErr, the queue, the events and the collaborators' state.
\<close>

fun childFilter ::
  "'w collaborators \<Rightarrow> digest_function \<Rightarrow> filter_node \<Rightarrow> queue \<Rightarrow> filter_event list \<Rightarrow> 'w
    \<Rightarrow> bool \<times> error option \<times> queue \<times> filter_event list \<times> 'w" where
  "childFilter K digestFunction (LeafNode r digests) q tr w =
     filter_digests K digestFunction r digests q tr w"
| "childFilter K digestFunction (DirectoryNode r (Inl savedErr)) q tr w =
     (if status_Code savedErr = NotFound then remove_node K r q tr w
      else (False, Some savedErr, q, tr, w))"
| "childFilter K digestFunction (DirectoryNode r (Inr digests)) q tr w =
     filter_digests K digestFunction r digests q tr w"

text \<open>FilterChildren calls the callback on the nodes in turn until it returns false.\<close>

fun filter_nodes ::
  "'w collaborators \<Rightarrow> digest_function \<Rightarrow> filter_node list \<Rightarrow> queue \<Rightarrow> filter_event list \<Rightarrow> 'w
    \<Rightarrow> error option \<times> queue \<times> filter_event list \<times> 'w" where
  "filter_nodes K digestFunction [] q tr w = (None, q, tr, w)"
| "filter_nodes K digestFunction (node # nodes) q tr w =
     (case childFilter K digestFunction node q tr w of
        (False, savedErr, q', tr', w') \<Rightarrow> (savedErr, q', tr', w')
      | (True, savedErr, q', tr', w') \<Rightarrow> filter_nodes K digestFunction nodes q' tr' w')"

definition filterMissingChildren ::
  "'w collaborators \<Rightarrow> directory \<Rightarrow> digest_function \<Rightarrow> 'w \<Rightarrow> error option \<times> filter_event list \<times> 'w" where
  "filterMissingChildren K rootDirectory digestFunction w =
     (case FilterChildren K rootDirectory w of
        (nodes, err) \<Rightarrow>
          (case filter_nodes K digestFunction nodes [] [] w of
             (savedErr, q, tr, w') \<Rightarrow>
               (case err of
                  Some e \<Rightarrow> (Some e, tr, w')
                | None \<Rightarrow>
                    (case savedErr of
                       Some e \<Rightarrow> (Some e, tr, w')
                     | None \<Rightarrow>
                         if length q > 0 then findMissingAndRemove K q tr w'
                         else (None, tr, w')))))"

subsection \<open>The registry\<close>

type_synonym addr = nat

record buildState =
  build_id :: string
  digestFunction :: digest_function
  scopeWalkerFactory :: virtual_root

record outputPathState =
  buildState :: "buildState option"
  rootDirectory :: directory
  casFileFactory :: casfilefactory
  previous :: addr
  next' :: addr
  cookie :: "64 word"
  outputBaseID :: component

text \<open>
  The store of outputPathState objects. Address 0 is \<^verbatim>\<open>&d.outputPaths\<close>, the
  head of the circular list, of which only the two links are used; the objects
  made by StartBuild get the addresses from \<open>allocated\<close> on, never given twice.
\<close>

record RemoteOutputServiceDirectory =
  maximumTreeSizeBytes :: int
  changeID :: "64 word"
  outputBaseIDs :: "component \<rightharpoonup> addr"
  buildIDs :: "string \<rightharpoonup> addr"
  objects :: "addr \<Rightarrow> outputPathState"
  allocated :: addr

definition set_next :: "(addr \<Rightarrow> outputPathState) \<Rightarrow> addr \<Rightarrow> addr \<Rightarrow> (addr \<Rightarrow> outputPathState)" where
  "set_next h p v = h(p := (h p)\<lparr>next' := v\<rparr>)"

definition set_previous :: "(addr \<Rightarrow> outputPathState) \<Rightarrow> addr \<Rightarrow> addr \<Rightarrow> (addr \<Rightarrow> outputPathState)" where
  "set_previous h p v = h(p := (h p)\<lparr>previous := v\<rparr>)"

definition set_buildState ::
  "(addr \<Rightarrow> outputPathState) \<Rightarrow> addr \<Rightarrow> buildState option \<Rightarrow> (addr \<Rightarrow> outputPathState)" where
  "set_buildState h p v = h(p := (h p)\<lparr>buildState := v\<rparr>)"

definition NewRemoteOutputServiceDirectory :: "int \<Rightarrow> RemoteOutputServiceDirectory" where
  "NewRemoteOutputServiceDirectory maximumTreeSize =
     \<lparr>maximumTreeSizeBytes = maximumTreeSize,
      changeID = 0,
      outputBaseIDs = Map.empty,
      buildIDs = Map.empty,
      objects = (\<lambda>p. \<lparr>buildState = None, rootDirectory = 0, casFileFactory = 0,
                       previous = 0, next' = 0, cookie = 0, outputBaseID = []\<rparr>),
      allocated = 1\<rparr>"

text \<open>The second critical section of Clean (lines 131 to 142).\<close>

definition Clean_locked ::
  "component \<Rightarrow> addr \<Rightarrow> RemoteOutputServiceDirectory \<Rightarrow> RemoteOutputServiceDirectory" where
  "Clean_locked outputBase p d =
     (if outputBaseIDs d outputBase = Some p then
        let h1 = set_next (objects d) (previous (objects d p)) (next' (objects d p));
            h2 = set_previous h1 (next' (h1 p)) (previous (h1 p));
            d2 = d\<lparr>outputBaseIDs := (outputBaseIDs d)(outputBase := None),
                   objects := h2,
                   changeID := changeID d + 1\<rparr>
        in (case buildState (h2 p) of
              Some bs \<Rightarrow>
                d2\<lparr>buildIDs := (buildIDs d2)(build_id bs := None),
                   objects := set_buildState h2 p None\<rparr>
            | None \<Rightarrow> d2)
      else d)"

text \<open>
  Clean, run without another call in between its two critical sections: the object
  found under the first lock is the one given to \<open>Clean_locked\<close>.
\<close>

definition Clean ::
  "'w collaborators \<Rightarrow> string \<Rightarrow> RemoteOutputServiceDirectory \<Rightarrow> 'w
    \<Rightarrow> (error + unit) \<times> RemoteOutputServiceDirectory \<times> 'w" where
  "Clean K request_OutputBaseId d w =
     (case NewComponent request_OutputBaseId of
        None \<Rightarrow> (Inl (Status InvalidArgument), d, w)
      | Some outputBase \<Rightarrow>
          (case outputBaseIDs d outputBase of
             Some p \<Rightarrow>
               (case RemoveAllChildren K (rootDirectory (objects d p)) True w of
                  (Some err, w') \<Rightarrow> (Inl err, d, w')
                | (None, w') \<Rightarrow>
                    (Inr (), Clean_locked outputBase p d, NotifyRemoval K outputBase w'))
           | None \<Rightarrow>
               (case OutputPathFactory_Clean K outputBase w of
                  (Some err, w') \<Rightarrow> (Inl err, d, w')
                | (None, w') \<Rightarrow> (Inr (), d, w'))))"

record StartBuildRequest =
  OutputPathPrefix :: string
  OutputBaseId :: string
  BuildId :: string
  InstanceName :: string
  DigestFunction :: nat
  OutputPathAliases :: "(string \<times> string) list"

text \<open>The critical section of StartBuild (lines 288 to 340); it returns \<open>state\<close>.\<close>

definition StartBuild_locked ::
  "'w collaborators \<Rightarrow> string \<Rightarrow> component \<Rightarrow> digest_function \<Rightarrow> virtual_root
    \<Rightarrow> RemoteOutputServiceDirectory \<Rightarrow> 'w \<Rightarrow> addr \<times> RemoteOutputServiceDirectory \<times> 'w" where
  "StartBuild_locked K request_BuildId outputBase digestFn factory d w =
     (case buildIDs d request_BuildId of
        Some state \<Rightarrow> (state, d, w)
      | None \<Rightarrow>
          (case
             (case outputBaseIDs d outputBase of
                Some state \<Rightarrow>
                  (case buildState (objects d state) of
                     Some bs \<Rightarrow>
                       (state,
                        d\<lparr>buildIDs := (buildIDs d)(build_id bs := None),
                          objects := set_buildState (objects d) state None\<rparr>,
                        w)
                   | None \<Rightarrow> (state, d, w))
              | None \<Rightarrow>
                  (case NewCASFileFactory K w of
                     (factory', w1) \<Rightarrow>
                       (case StartInitialBuild K outputBase factory' digestFn w1 of
                          (root, w2) \<Rightarrow>
                            let state = allocated d;
                                h1 = (objects d)
                                  (state := \<lparr>buildState = None, rootDirectory = root,
                                             casFileFactory = factory',
                                             previous = previous (objects d 0), next' = 0,
                                             cookie = changeID d, outputBaseID = outputBase\<rparr>);
                                h2 = set_next h1 (previous (h1 state)) state;
                                h3 = set_previous h2 (next' (h2 state)) state
                            in (state,
                                d\<lparr>allocated := Suc state,
                                  outputBaseIDs := (outputBaseIDs d)(outputBase \<mapsto> state),
                                  objects := h3,
                                  changeID := changeID d + 1\<rparr>,
                                w2))))
           of (state, d1, w1) \<Rightarrow>
             (state,
              d1\<lparr>objects := set_buildState (objects d1) state
                   (Some \<lparr>build_id = request_BuildId, digestFunction = digestFn,
                          scopeWalkerFactory = factory\<rparr>),
                 buildIDs := (buildIDs d1)(request_BuildId \<mapsto> state)\<rparr>,
              w1)))"

text \<open>
  The first part of StartBuild (lines 250 to 286), which reads the request alone: the
  output path is the prefix, which has to be absolute, followed by the output base
  ID. It gives the output base ID, the virtual root and the digest function.
\<close>

definition StartBuild_request ::
  "'w collaborators \<Rightarrow> StartBuildRequest \<Rightarrow> error + component \<times> virtual_root \<times> digest_function" where
  "StartBuild_request K request =
     (case parse_path (OutputPathPrefix request) of
        Inl err \<Rightarrow> Inl (StatusWrap err)
      | Inr prefix \<Rightarrow>
          if \<not> absolute prefix then Inl (Status InvalidArgument)
          else
            (case NewComponent (OutputBaseId request) of
               None \<Rightarrow> Inl (Status InvalidArgument)
             | Some outputBase \<Rightarrow>
                 (case NewVirtualRootScopeWalkerFactory K (components prefix) outputBase
                         (OutputPathAliases request) of
                    Inl err \<Rightarrow> Inl err
                  | Inr factory \<Rightarrow>
                      (case GetDigestFunction K (InstanceName request) (DigestFunction request) of
                         Inl err \<Rightarrow> Inl err
                       | Inr digestFn \<Rightarrow> Inr (outputBase, factory, digestFn)))))"

text \<open>
  StartBuild (lines 249 to 359). The suffix returned to the client is the output
  base ID. Next to the response the function returns the events of the filter, the
  registry and the collaborators' state.
\<close>

definition StartBuild ::
  "'w collaborators \<Rightarrow> StartBuildRequest \<Rightarrow> RemoteOutputServiceDirectory \<Rightarrow> 'w
    \<Rightarrow> (error + string) \<times> filter_event list \<times> RemoteOutputServiceDirectory \<times> 'w" where
  "StartBuild K request d w =
     (case StartBuild_request K request of
        Inl err \<Rightarrow> (Inl err, [], d, w)
      | Inr (outputBase, factory, digestFn) \<Rightarrow>
          (case StartBuild_locked K (BuildId request) outputBase digestFn factory d w of
             (state, d', w') \<Rightarrow>
               (case filterMissingChildren K (rootDirectory (objects d' state)) digestFn w' of
                  (Some err, tr, w'') \<Rightarrow> (Inl (StatusWrap err), tr, d', w'')
                | (None, tr, w'') \<Rightarrow> (Inr outputBase, tr, d', w''))))"

text \<open>getOutputPathAndBuildState (lines 364 to 373).\<close>

definition getOutputPathAndBuildState ::
  "RemoteOutputServiceDirectory \<Rightarrow> string \<Rightarrow> error + (addr \<times> buildState option)" where
  "getOutputPathAndBuildState d buildID =
     (case buildIDs d buildID of
        None \<Rightarrow> Inl (Status FailedPrecondition)
      | Some p \<Rightarrow> Inr (p, buildState (objects d p)))"

text \<open>FinalizeBuild (lines 704 to 717). Reading a field of a nil buildState panics.\<close>

definition FinalizeBuild ::
  "'w collaborators \<Rightarrow> string \<Rightarrow> RemoteOutputServiceDirectory \<Rightarrow> 'w
    \<Rightarrow> (error + unit) \<times> RemoteOutputServiceDirectory \<times> 'w" where
  "FinalizeBuild K request_BuildId d w =
     (case buildIDs d request_BuildId of
        Some p \<Rightarrow>
          (case buildState (objects d p) of
             None \<Rightarrow> (Inl Panic, d, w)
           | Some bs \<Rightarrow>
               (Inr (),
                d\<lparr>buildIDs := (buildIDs d)(build_id bs := None),
                  objects := set_buildState (objects d) p None\<rparr>,
                Directory_FinalizeBuild K (rootDirectory (objects d p)) (digestFunction bs) w))
      | None \<Rightarrow> (Inr (), d, w))"

text \<open>
  VirtualReadDir (lines 762 to 788). The reporter is a function of the entries it
  has accepted so far and of the entry offered; an entry it refuses is not reported
  and ends the call. Both loops follow the links of the store, so they are partial:
  None is a call that does not return. The attributes of the children are not modelled.
\<close>

type_synonym entry = "64 word \<times> component \<times> directory"

partial_function (option) first_past_cookie ::
  "(addr \<Rightarrow> outputPathState) \<Rightarrow> 64 word \<Rightarrow> addr \<Rightarrow> addr option" where
  "first_past_cookie h firstCookie p =
     (if p = 0 then Some 0
      else if cookie (h p) \<ge> firstCookie then Some p
      else first_past_cookie h firstCookie (next' (h p)))"

partial_function (option) report_entries ::
  "(addr \<Rightarrow> outputPathState) \<Rightarrow> (entry list \<Rightarrow> entry \<Rightarrow> bool) \<Rightarrow> addr \<Rightarrow> entry list
    \<Rightarrow> entry list option" where
  "report_entries h reporter p reported =
     (if p = 0 then Some reported
      else if reporter reported (cookie (h p) + 1, outputBaseID (h p), rootDirectory (h p))
      then report_entries h reporter (next' (h p))
             (reported @ [(cookie (h p) + 1, outputBaseID (h p), rootDirectory (h p))])
      else Some reported)"

definition VirtualReadDir ::
  "RemoteOutputServiceDirectory \<Rightarrow> 64 word \<Rightarrow> (entry list \<Rightarrow> entry \<Rightarrow> bool) \<Rightarrow> entry list option" where
  "VirtualReadDir d firstCookie reporter =
     (case first_past_cookie (objects d) firstCookie (next' (objects d 0)) of
        None \<Rightarrow> None
      | Some p \<Rightarrow> if p = 0 then Some [] else report_entries (objects d) reporter p [])"

subsection \<open>Path walkers\<close>

text \<open>
  \<^verbatim>\<open>util.NonEmptyStack\<close>: the top of the stack and the elements below it, so that
  the stack always holds an element.
\<close>

type_synonym 'a stack = "'a \<times> 'a list"

definition NewNonEmptyStack :: "'a \<Rightarrow> 'a stack" where
  "NewNonEmptyStack base = (base, [])"

definition Peek :: "'a stack \<Rightarrow> 'a" where
  "Peek s = fst s"

definition Push :: "'a \<Rightarrow> 'a stack \<Rightarrow> 'a stack" where
  "Push x s = (x, fst s # snd s)"

text \<open>PopSingle removes the top unless it is the only element; None is its \<^verbatim>\<open>ok = false\<close>.\<close>

definition PopSingle :: "'a stack \<Rightarrow> 'a stack option" where
  "PopSingle s = (case snd s of [] \<Rightarrow> None | y # below \<Rightarrow> Some (y, below))"

definition PopAll :: "'a stack \<Rightarrow> 'a stack" where
  "PopAll s = (last (fst s # snd s), [])"

text \<open>directoryCreatingComponentWalker (lines 382 to 407); its state is the stack.\<close>

definition directoryCreatingComponentWalker_OnDirectory ::
  "'w collaborators \<Rightarrow> component \<Rightarrow> directory stack \<Rightarrow> 'w \<Rightarrow> (error + directory stack) \<times> 'w" where
  "directoryCreatingComponentWalker_OnDirectory K name st w =
     (case CreateAndEnterPrepopulatedDirectory K (Peek st) name w of
        (Inl err, w') \<Rightarrow> (Inl err, w')
      | (Inr child, w') \<Rightarrow> (Inr (Push child st), w'))"

text \<open>\<^verbatim>\<open>path.OnTerminalViaOnDirectory\<close>: OnDirectory, which here always gives a directory.\<close>

definition directoryCreatingComponentWalker_OnTerminal ::
  "'w collaborators \<Rightarrow> component \<Rightarrow> directory stack \<Rightarrow> 'w \<Rightarrow> (error + directory stack) \<times> 'w" where
  "directoryCreatingComponentWalker_OnTerminal K name st w =
     directoryCreatingComponentWalker_OnDirectory K name st w"

definition directoryCreatingComponentWalker_OnUp :: "directory stack \<Rightarrow> error + directory stack" where
  "directoryCreatingComponentWalker_OnUp st =
     (case PopSingle st of
        None \<Rightarrow> Inl (Status InvalidArgument)
      | Some st' \<Rightarrow> Inr st')"

text \<open>
  \<^verbatim>\<open>path.Resolve\<close> on the components of a path: an empty component or a dot is
  skipped, a double dot is OnUp, a name is OnTerminal when it is the last component
  of the path and OnDirectory otherwise.
\<close>

fun resolve_directoryCreating ::
  "'w collaborators \<Rightarrow> pcomp list \<Rightarrow> directory stack \<Rightarrow> 'w \<Rightarrow> (error + directory stack) \<times> 'w" where
  "resolve_directoryCreating K [] st w = (Inr st, w)"
| "resolve_directoryCreating K (Skip # cs) st w = resolve_directoryCreating K cs st w"
| "resolve_directoryCreating K (Up # cs) st w =
     (case directoryCreatingComponentWalker_OnUp st of
        Inl err \<Rightarrow> (Inl err, w)
      | Inr st' \<Rightarrow> resolve_directoryCreating K cs st' w)"
| "resolve_directoryCreating K (Name name # cs) st w =
     (case (if cs = [] then directoryCreatingComponentWalker_OnTerminal K name st w
            else directoryCreatingComponentWalker_OnDirectory K name st w) of
        (Inl err, w') \<Rightarrow> (Inl err, w')
      | (Inr st', w') \<Rightarrow> resolve_directoryCreating K cs st' w')"

text \<open>\<^verbatim>\<open>path.NewRelativeScopeWalker\<close> refuses an absolute path.\<close>

definition Resolve_directoryCreating ::
  "'w collaborators \<Rightarrow> string \<Rightarrow> directory stack \<Rightarrow> 'w \<Rightarrow> (error + directory stack) \<times> 'w" where
  "Resolve_directoryCreating K path st w =
     (case parse_path path of
        Inl err \<Rightarrow> (Inl err, w)
      | Inr p \<Rightarrow>
          if absolute p then (Inl (Status InvalidArgument), w)
          else resolve_directoryCreating K (components p) st w)"

text \<open>
  parentDirectoryCreatingComponentWalker (lines 431 to 453); its state is TerminalName
  and the stack. OnTerminal is that of TerminalNameTrackingComponentWalker, which
  stores the name.
\<close>

type_synonym parentDirectoryCreatingComponentWalker = "component option \<times> directory stack"

definition parentDirectoryCreatingComponentWalker_OnDirectory ::
  "'w collaborators \<Rightarrow> component \<Rightarrow> parentDirectoryCreatingComponentWalker \<Rightarrow> 'w
    \<Rightarrow> (error + parentDirectoryCreatingComponentWalker) \<times> 'w" where
  "parentDirectoryCreatingComponentWalker_OnDirectory K name cw w =
     (case CreateAndEnterPrepopulatedDirectory K (Peek (snd cw)) name w of
        (Inl err, w') \<Rightarrow> (Inl err, w')
      | (Inr child, w') \<Rightarrow> (Inr (fst cw, Push child (snd cw)), w'))"

definition parentDirectoryCreatingComponentWalker_OnTerminal ::
  "component \<Rightarrow> parentDirectoryCreatingComponentWalker \<Rightarrow> parentDirectoryCreatingComponentWalker" where
  "parentDirectoryCreatingComponentWalker_OnTerminal name cw = (Some name, snd cw)"

definition parentDirectoryCreatingComponentWalker_OnUp ::
  "parentDirectoryCreatingComponentWalker \<Rightarrow> error + parentDirectoryCreatingComponentWalker" where
  "parentDirectoryCreatingComponentWalker_OnUp cw =
     (case PopSingle (snd cw) of
        None \<Rightarrow> Inl (Status InvalidArgument)
      | Some st' \<Rightarrow> Inr (fst cw, st'))"

fun resolve_parentDirectoryCreating ::
  "'w collaborators \<Rightarrow> pcomp list \<Rightarrow> parentDirectoryCreatingComponentWalker \<Rightarrow> 'w
    \<Rightarrow> (error + parentDirectoryCreatingComponentWalker) \<times> 'w" where
  "resolve_parentDirectoryCreating K [] cw w = (Inr cw, w)"
| "resolve_parentDirectoryCreating K (Skip # cs) cw w = resolve_parentDirectoryCreating K cs cw w"
| "resolve_parentDirectoryCreating K (Up # cs) cw w =
     (case parentDirectoryCreatingComponentWalker_OnUp cw of
        Inl err \<Rightarrow> (Inl err, w)
      | Inr cw' \<Rightarrow> resolve_parentDirectoryCreating K cs cw' w)"
| "resolve_parentDirectoryCreating K (Name name # cs) cw w =
     (if cs = [] then
        resolve_parentDirectoryCreating K cs (parentDirectoryCreatingComponentWalker_OnTerminal name cw) w
      else
        (case parentDirectoryCreatingComponentWalker_OnDirectory K name cw w of
           (Inl err, w') \<Rightarrow> (Inl err, w')
         | (Inr cw', w') \<Rightarrow> resolve_parentDirectoryCreating K cs cw' w'))"

definition Resolve_parentDirectoryCreating ::
  "'w collaborators \<Rightarrow> string \<Rightarrow> parentDirectoryCreatingComponentWalker \<Rightarrow> 'w
    \<Rightarrow> (error + parentDirectoryCreatingComponentWalker) \<times> 'w" where
  "Resolve_parentDirectoryCreating K path cw w =
     (case parse_path path of
        Inl err \<Rightarrow> (Inl err, w)
      | Inr p \<Rightarrow>
          if absolute p then (Inl (Status InvalidArgument), w)
          else resolve_parentDirectoryCreating K (components p) cw w)"

text \<open>createChild (lines 409 to 425), on the stack of the prefix walker.\<close>

definition createChild ::
  "'w collaborators \<Rightarrow> directory stack \<Rightarrow> string \<Rightarrow> initial_node \<Rightarrow> 'w \<Rightarrow> error option \<times> 'w" where
  "createChild K st outputPath initialNode w =
     (case Resolve_parentDirectoryCreating K outputPath (None, st) w of
        (Inl err, w') \<Rightarrow> (Some (StatusWrap err), w')
      | (Inr outputParentCreator, w') \<Rightarrow>
          (case fst outputParentCreator of
             None \<Rightarrow> (Some (Status InvalidArgument), w')
           | Some name \<Rightarrow>
               CreateChildren K (Peek (snd outputParentCreator)) name initialNode True w'))"

subsection \<open>BatchCreate\<close>

record OutputFile =
  file_Path :: string
  file_Digest :: "string \<times> int"
  IsExecutable :: bool

record OutputDirectory =
  directory_Path :: string
  TreeDigest :: "string \<times> int"

record OutputSymlink =
  symlink_Path :: string
  Target :: string

record BatchCreateRequest =
  create_BuildId :: string
  PathPrefix :: string
  CleanPathPrefix :: bool
  Files :: "OutputFile list"
  Directories :: "OutputDirectory list"
  Symlinks :: "OutputSymlink list"

text \<open>
  The three loops of BatchCreate. \<open>bs\<close> is the buildState pointer that
  getOutputPathAndBuildState returned; reading its digest function panics when it is nil.
\<close>

fun create_files ::
  "'w collaborators \<Rightarrow> directory stack \<Rightarrow> casfilefactory \<Rightarrow> buildState option \<Rightarrow> OutputFile list
    \<Rightarrow> 'w \<Rightarrow> error option \<times> 'w" where
  "create_files K st factory bs [] w = (None, w)"
| "create_files K st factory bs (entry # entries) w =
     (case bs of
        None \<Rightarrow> (Some Panic, w)
      | Some b \<Rightarrow>
          (case NewDigestFromProto K (digestFunction b) (file_Digest entry) of
             Inl err \<Rightarrow> (Some (StatusWrap err), w)
           | Inr childDigest \<Rightarrow>
               (case LookupFile K factory childDigest (IsExecutable entry) w of
                  (leaf, w1) \<Rightarrow>
                    (case createChild K st (file_Path entry) (FromLeaf leaf) w1 of
                       (Some err, w2) \<Rightarrow> (Some (StatusWrap err), Unlink K leaf w2)
                     | (None, w2) \<Rightarrow> create_files K st factory bs entries w2))))"

fun create_directories ::
  "'w collaborators \<Rightarrow> int \<Rightarrow> directory stack \<Rightarrow> buildState option \<Rightarrow> OutputDirectory list
    \<Rightarrow> 'w \<Rightarrow> error option \<times> 'w" where
  "create_directories K maximumTreeSize st bs [] w = (None, w)"
| "create_directories K maximumTreeSize st bs (entry # entries) w =
     (case bs of
        None \<Rightarrow> (Some Panic, w)
      | Some b \<Rightarrow>
          (case NewDigestFromProto K (digestFunction b) (TreeDigest entry) of
             Inl err \<Rightarrow> (Some (StatusWrap err), w)
           | Inr childDigest \<Rightarrow>
               if sizeBytes childDigest > maximumTreeSize then (Some (Status InvalidArgument), w)
               else
                 (case createChild K st (directory_Path entry) (FromDirectory childDigest) w of
                    (Some err, w1) \<Rightarrow> (Some (StatusWrap err), w1)
                  | (None, w1) \<Rightarrow> create_directories K maximumTreeSize st bs entries w1)))"

fun create_symlinks ::
  "'w collaborators \<Rightarrow> directory stack \<Rightarrow> OutputSymlink list \<Rightarrow> 'w \<Rightarrow> error option \<times> 'w" where
  "create_symlinks K st [] w = (None, w)"
| "create_symlinks K st (entry # entries) w =
     (case LookupSymlink K (Target entry) w of
        (leaf, w1) \<Rightarrow>
          (case createChild K st (symlink_Path entry) (FromLeaf leaf) w1 of
             (Some err, w2) \<Rightarrow> (Some (StatusWrap err), Unlink K leaf w2)
           | (None, w2) \<Rightarrow> create_symlinks K st entries w2))"

text \<open>BatchCreate (lines 462 to 526). It does not change the registry.\<close>

definition BatchCreate ::
  "'w collaborators \<Rightarrow> BatchCreateRequest \<Rightarrow> RemoteOutputServiceDirectory \<Rightarrow> 'w
    \<Rightarrow> (error + unit) \<times> 'w" where
  "BatchCreate K request d w =
     (case getOutputPathAndBuildState d (create_BuildId request) of
        Inl err \<Rightarrow> (Inl err, w)
      | Inr (p, bs) \<Rightarrow>
          (case Resolve_directoryCreating K (PathPrefix request)
                  (NewNonEmptyStack (rootDirectory (objects d p))) w of
             (Inl err, w1) \<Rightarrow> (Inl (StatusWrap err), w1)
           | (Inr st, w1) \<Rightarrow>
               (case (if CleanPathPrefix request then RemoveAllChildren K (Peek st) False w1
                      else (None, w1)) of
                  (Some err, w2) \<Rightarrow> (Inl (StatusWrap err), w2)
                | (None, w2) \<Rightarrow>
                    (case create_files K st (casFileFactory (objects d p)) bs (Files request) w2 of
                       (Some err, w3) \<Rightarrow> (Inl err, w3)
                     | (None, w3) \<Rightarrow>
                         (case create_directories K (maximumTreeSizeBytes d) st bs
                                 (Directories request) w3 of
                            (Some err, w4) \<Rightarrow> (Inl err, w4)
                          | (None, w4) \<Rightarrow>
                              (case create_symlinks K st (Symlinks request) w4 of
                                 (Some err, w5) \<Rightarrow> (Inl err, w5)
                               | (None, w5) \<Rightarrow> (Inr (), w5)))))))"

subsection \<open>BatchStat\<close>

record statWalker =
  followSymlinks :: bool
  stat_digestFunction :: "digest_function option"
  stack :: "directory stack"
  fileStatus :: file_status

datatype got = GotDirectory | GotSymlink string

definition statWalker_OnScope :: "bool \<Rightarrow> statWalker \<Rightarrow> statWalker" where
  "statWalker_OnScope is_absolute cw =
     (if is_absolute then cw\<lparr>stack := PopAll (stack cw), fileStatus := FS_Directory None\<rparr>
      else cw\<lparr>fileStatus := FS_Directory None\<rparr>)"

definition statWalker_OnDirectory ::
  "'w collaborators \<Rightarrow> component \<Rightarrow> statWalker \<Rightarrow> 'w \<Rightarrow> (error + got \<times> statWalker) \<times> 'w" where
  "statWalker_OnDirectory K name cw w =
     (case LookupChild K (Peek (stack cw)) name w of
        (Inl err, w') \<Rightarrow> (Inl err, w')
      | (Inr (ChildDirectory dir), w') \<Rightarrow> (Inr (GotDirectory, cw\<lparr>stack := Push dir (stack cw)\<rparr>), w')
      | (Inr (ChildLeaf l), w') \<Rightarrow>
          (case Readlink K l w' of
             Inl err \<Rightarrow> (if err = Errno EINVAL then (Inl (Errno ENOTDIR), w') else (Inl err, w'))
           | Inr target \<Rightarrow> (Inr (GotSymlink target, cw\<lparr>fileStatus := FS_External None\<rparr>), w')))"

definition leaf_status ::
  "'w collaborators \<Rightarrow> leaf \<Rightarrow> statWalker \<Rightarrow> 'w \<Rightarrow> (error + string option \<times> statWalker) \<times> 'w" where
  "leaf_status K l cw w =
     (case GetOutputServiceFileStatus K l (stat_digestFunction cw) w of
        (Inl err, w') \<Rightarrow> (Inl err, w')
      | (Inr status, w') \<Rightarrow> (Inr (None, cw\<lparr>fileStatus := status\<rparr>), w'))"

text \<open>OnTerminal returns the target of a symbolic link to follow, or None for nil.\<close>

definition statWalker_OnTerminal ::
  "'w collaborators \<Rightarrow> component \<Rightarrow> statWalker \<Rightarrow> 'w \<Rightarrow> (error + string option \<times> statWalker) \<times> 'w" where
  "statWalker_OnTerminal K name cw w =
     (case LookupChild K (Peek (stack cw)) name w of
        (Inl err, w') \<Rightarrow> (Inl err, w')
      | (Inr (ChildDirectory dir), w') \<Rightarrow> (Inr (None, cw\<lparr>stack := Push dir (stack cw)\<rparr>), w')
      | (Inr (ChildLeaf l), w') \<Rightarrow>
          (if followSymlinks cw then
             (case Readlink K l w' of
                Inr target \<Rightarrow> (Inr (Some target, cw\<lparr>fileStatus := FS_External None\<rparr>), w')
              | Inl err \<Rightarrow>
                  (if err \<noteq> Errno EINVAL then (Inl err, w') else leaf_status K l cw w'))
           else leaf_status K l cw w'))"

text \<open>
  OnUp returns whether resolution goes on in this walker (True) or in
  \<^verbatim>\<open>path.VoidComponentWalker\<close> (False), which accepts every component.
\<close>

definition statWalker_OnUp :: "statWalker \<Rightarrow> bool \<times> statWalker" where
  "statWalker_OnUp cw =
     (case PopSingle (stack cw) of
        None \<Rightarrow> (False, cw\<lparr>fileStatus := FS_External None\<rparr>)
      | Some st' \<Rightarrow> (True, cw\<lparr>stack := st'\<rparr>))"

text \<open>
  OnScope of the scope walker that BatchStat builds: the virtual root sends an
  absolute path either into the output path (OnScope of the stat walker, with the
  components that are left) or outside of it (the void walker, the stat walker is
  not called); a relative path goes to the stat walker as it is. The result is
  whether the stat walker is the current walker, the walker and the components to resolve.
\<close>

definition stat_OnScope ::
  "virtual_root \<Rightarrow> bool \<Rightarrow> pcomp list \<Rightarrow> statWalker \<Rightarrow> bool \<times> statWalker \<times> pcomp list" where
  "stat_OnScope factory is_absolute cs cw =
     (if is_absolute then
        (case factory cs of
           Some remaining \<Rightarrow> (True, statWalker_OnScope True cw, remaining)
         | None \<Rightarrow> (False, cw, cs))
      else (True, statWalker_OnScope False cw, cs))"

text \<open>
  What \<^verbatim>\<open>path.Resolve\<close> does with the target of a symbolic link: the target is
  read as a path, its scope is entered and its components are resolved before the
  components \<open>cs\<close> that follow the link.
\<close>

definition push_target ::
  "virtual_root \<Rightarrow> string \<Rightarrow> pcomp list \<Rightarrow> statWalker
    \<Rightarrow> error + (bool \<times> statWalker \<times> pcomp list) \<times> event" where
  "push_target factory target cs cw =
     (case parse_path target of
        Inl err \<Rightarrow> Inl err
      | Inr p \<Rightarrow>
          Inr (stat_OnScope factory (absolute p) (components p @ cs) cw,
               OnScopeEvent (absolute p) (components p @ cs)))"

text \<open>
  \<^verbatim>\<open>path.Resolve\<close> on the scope walker of BatchStat. \<open>symlinksLeft\<close> is the
  counter of the loop detecting walker, \<open>active\<close> says that the stat walker is the
  current component walker (the void walker is otherwise), \<open>tr\<close> are the calls the
  path builder has seen.
\<close>

function resolve_stat ::
  "'w collaborators \<Rightarrow> virtual_root \<Rightarrow> nat \<Rightarrow> bool \<Rightarrow> pcomp list \<Rightarrow> statWalker \<Rightarrow> event list \<Rightarrow> 'w
    \<Rightarrow> (error + statWalker \<times> event list) \<times> 'w" where
  "resolve_stat K factory symlinksLeft active [] cw tr w = (Inr (cw, tr), w)"
| "resolve_stat K factory symlinksLeft active (Skip # cs) cw tr w =
     resolve_stat K factory symlinksLeft active cs cw tr w"
| "resolve_stat K factory symlinksLeft active (Up # cs) cw tr w =
     (if active then
        (case statWalker_OnUp cw of
           (active', cw') \<Rightarrow>
             resolve_stat K factory symlinksLeft active' cs cw' (tr @ [OnUpEvent True]) w)
      else resolve_stat K factory symlinksLeft False cs cw (tr @ [OnUpEvent False]) w)"
| "resolve_stat K factory symlinksLeft active (Name name # cs) cw tr w =
     (if \<not> active then
        resolve_stat K factory symlinksLeft False cs cw
          (tr @ [if cs = [] then OnTerminalEvent False name False
                 else OnDirectoryEvent False name False]) w
      else if cs = [] then
        (case statWalker_OnTerminal K name cw w of
           (Inl err, w') \<Rightarrow> (Inl err, w')
         | (Inr (None, cw'), w') \<Rightarrow>
             resolve_stat K factory symlinksLeft True cs cw'
               (tr @ [OnTerminalEvent True name False]) w'
         | (Inr (Some target, cw'), w') \<Rightarrow>
             (if symlinksLeft = 0 then (Inl (Errno ELOOP), w')
              else
                (case push_target factory target cs cw' of
                   Inl err \<Rightarrow> (Inl err, w')
                 | Inr ((active', cw'', cs'), scope) \<Rightarrow>
                     resolve_stat K factory (symlinksLeft - 1) active' cs' cw''
                       (tr @ [OnTerminalEvent True name True, scope]) w')))
      else
        (case statWalker_OnDirectory K name cw w of
           (Inl err, w') \<Rightarrow> (Inl err, w')
         | (Inr (GotDirectory, cw'), w') \<Rightarrow>
             resolve_stat K factory symlinksLeft True cs cw'
               (tr @ [OnDirectoryEvent True name False]) w'
         | (Inr (GotSymlink target, cw'), w') \<Rightarrow>
             (if symlinksLeft = 0 then (Inl (Errno ELOOP), w')
              else
                (case push_target factory target cs cw' of
                   Inl err \<Rightarrow> (Inl err, w')
                 | Inr ((active', cw'', cs'), scope) \<Rightarrow>
                     resolve_stat K factory (symlinksLeft - 1) active' cs' cw''
                       (tr @ [OnDirectoryEvent True name True, scope]) w'))))"
  by pat_completeness auto
termination
  by (relation "measures [\<lambda>(K, factory, symlinksLeft, active, cs, cw, tr, w). symlinksLeft,
                          \<lambda>(K, factory, symlinksLeft, active, cs, cw, tr, w). length cs]") auto

definition Resolve_stat ::
  "'w collaborators \<Rightarrow> virtual_root \<Rightarrow> string \<Rightarrow> statWalker \<Rightarrow> 'w
    \<Rightarrow> (error + statWalker \<times> event list) \<times> 'w" where
  "Resolve_stat K factory path cw w =
     (case push_target factory path [] cw of
        Inl err \<Rightarrow> (Inl err, w)
      | Inr ((active, cw', cs), scope) \<Rightarrow>
          resolve_stat K factory (maximumSymlinkRedirections K) active cs cw' [scope] w)"

record BatchStatRequest =
  stat_BuildId :: string
  Paths :: "string list"
  FollowSymlinks :: bool
  IncludeFileDigest :: bool

text \<open>The stat walker that BatchStat makes for each path (lines 651 to 660).\<close>

definition new_statWalker :: "directory \<Rightarrow> buildState \<Rightarrow> BatchStatRequest \<Rightarrow> statWalker" where
  "new_statWalker root bs request =
     \<lparr>followSymlinks = FollowSymlinks request,
      stat_digestFunction = (if IncludeFileDigest request then Some (digestFunction bs) else None),
      stack = NewNonEmptyStack root,
      fileStatus = FS_External None\<rparr>"

text \<open>
  One iteration of the loop of BatchStat (lines 650 to 697): the StatResponse to
  append, None being the empty response of a path that does not exist.
\<close>

definition stat_path ::
  "'w collaborators \<Rightarrow> directory \<Rightarrow> buildState \<Rightarrow> BatchStatRequest \<Rightarrow> string \<Rightarrow> 'w
    \<Rightarrow> (error + file_status option) \<times> 'w" where
  "stat_path K root bs request statPath w =
     (case Resolve_stat K (scopeWalkerFactory bs) statPath (new_statWalker root bs request) w of
        (Inl err, w') \<Rightarrow>
          (if err = Errno ENOENT then (Inr None, w') else (Inl (StatusWrap err), w'))
      | (Inr (cw, resolvedPath), w') \<Rightarrow>
          (case fileStatus cw of
             FS_Directory t \<Rightarrow>
               (case GetLastDataModificationTime K (Peek (stack cw)) w' of
                  None \<Rightarrow> (Inl Panic, w')
                | Some lastModifiedTime \<Rightarrow> (Inr (Some (FS_Directory (Some lastModifiedTime))), w'))
           | FS_External n \<Rightarrow> (Inr (Some (FS_External (Some (Builder_String K resolvedPath)))), w')
           | FS_File f \<Rightarrow> (Inr (Some (FS_File f)), w')
           | FS_Symlink t \<Rightarrow> (Inr (Some (FS_Symlink t)), w')))"

fun stat_paths ::
  "'w collaborators \<Rightarrow> directory \<Rightarrow> buildState option \<Rightarrow> BatchStatRequest \<Rightarrow> string list
    \<Rightarrow> file_status option list \<Rightarrow> 'w \<Rightarrow> (error + file_status option list) \<times> 'w" where
  "stat_paths K root bs request [] responses w = (Inr responses, w)"
| "stat_paths K root bs request (statPath # statPaths) responses w =
     (case bs of
        None \<Rightarrow> (Inl Panic, w)
      | Some b \<Rightarrow>
          (case stat_path K root b request statPath w of
             (Inl err, w') \<Rightarrow> (Inl err, w')
           | (Inr response, w') \<Rightarrow>
               stat_paths K root bs request statPaths (responses @ [response]) w'))"

text \<open>BatchStat (lines 641 to 699). It does not change the registry.\<close>

definition BatchStat ::
  "'w collaborators \<Rightarrow> BatchStatRequest \<Rightarrow> RemoteOutputServiceDirectory \<Rightarrow> 'w
    \<Rightarrow> (error + file_status option list) \<times> 'w" where
  "BatchStat K request d w =
     (case getOutputPathAndBuildState d (stat_BuildId request) of
        Inl err \<Rightarrow> (Inl err, w)
      | Inr (p, bs) \<Rightarrow> stat_paths K (rootDirectory (objects d p)) bs request (Paths request) [] w)"

subsection \<open>Sequences of calls\<close>

datatype operation =
    CleanOp string
  | StartBuildOp StartBuildRequest
  | BatchCreateOp BatchCreateRequest
  | BatchStatOp BatchStatRequest
  | FinalizeBuildOp string

fun step ::
  "'w collaborators \<Rightarrow> operation \<Rightarrow> RemoteOutputServiceDirectory \<times> 'w
    \<Rightarrow> RemoteOutputServiceDirectory \<times> 'w" where
  "step K (CleanOp x) (d, w) = snd (Clean K x d w)"
| "step K (StartBuildOp request) (d, w) = snd (snd (StartBuild K request d w))"
| "step K (BatchCreateOp request) (d, w) = (d, snd (BatchCreate K request d w))"
| "step K (BatchStatOp request) (d, w) = (d, snd (BatchStat K request d w))"
| "step K (FinalizeBuildOp b) (d, w) = snd (FinalizeBuild K b d w)"

fun run ::
  "'w collaborators \<Rightarrow> operation list \<Rightarrow> RemoteOutputServiceDirectory \<times> 'w
    \<Rightarrow> RemoteOutputServiceDirectory \<times> 'w" where
  "run K [] s = s"
| "run K (op # ops) s = run K ops (step K op s)"

subsection \<open>An in-memory implementation of the collaborators\<close>

text \<open>
  A small implementation of the collaborators, on which the functions above can be
  run: directories and leaves are numbered objects, a directory holds named children,
  a leaf is a file with its digest or a symbolic link with its target, and the
  store lacks the blobs listed in \<open>absent\<close>. A directory made from a tree digest
  keeps the digest and starts empty. The theorems below hold for every
  implementation; this one provides the examples. Its rendering of a path is simpler
  than that of \<^verbatim>\<open>path.Builder\<close>: every component is written after a slash,
  and a step up as \<^verbatim>\<open>/..\<close>.
\<close>

record world =
  children :: "directory \<Rightarrow> (component \<times> directory_child) list"
  tree_digest :: "directory \<Rightarrow> digest option"
  leaf_content :: "leaf \<Rightarrow> (digest \<times> bool) + string"
  made :: nat
  absent :: "digest list"

definition store_child ::
  "component \<Rightarrow> directory_child \<Rightarrow> (component \<times> directory_child) list
    \<Rightarrow> (component \<times> directory_child) list" where
  "store_child name c es = filter (\<lambda>e. fst e \<noteq> name) es @ [(name, c)]"

definition memory_CreateAndEnter ::
  "directory \<Rightarrow> component \<Rightarrow> world \<Rightarrow> (error + directory) \<times> world" where
  "memory_CreateAndEnter dir name w =
     (case map_of (children w dir) name of
        Some (ChildDirectory c) \<Rightarrow> (Inr c, w)
      | _ \<Rightarrow>
          (Inr (made w),
           w\<lparr>children := (children w)
                (dir := store_child name (ChildDirectory (made w)) (children w dir),
                 made w := []),
             tree_digest := (tree_digest w)(made w := None),
             made := Suc (made w)\<rparr>))"

definition memory_CreateChildren ::
  "directory \<Rightarrow> component \<Rightarrow> initial_node \<Rightarrow> bool \<Rightarrow> world \<Rightarrow> error option \<times> world" where
  "memory_CreateChildren dir name node overwrite w =
     (if \<not> overwrite \<and> map_of (children w dir) name \<noteq> None then (Some (Status (OtherCode 6)), w)
      else
        (case node of
           FromLeaf l \<Rightarrow>
             (None, w\<lparr>children := (children w)
                        (dir := store_child name (ChildLeaf l) (children w dir))\<rparr>)
         | FromDirectory treeDigest \<Rightarrow>
             (None,
              w\<lparr>children := (children w)
                   (dir := store_child name (ChildDirectory (made w)) (children w dir),
                    made w := []),
                tree_digest := (tree_digest w)(made w \<mapsto> treeDigest),
                made := Suc (made w)\<rparr>)))"

definition memory_LookupChild ::
  "directory \<Rightarrow> component \<Rightarrow> world \<Rightarrow> (error + directory_child) \<times> world" where
  "memory_LookupChild dir name w =
     (case map_of (children w dir) name of
        None \<Rightarrow> (Inl (Errno ENOENT), w)
      | Some c \<Rightarrow> (Inr c, w))"

fun memory_nodes :: "nat \<Rightarrow> world \<Rightarrow> directory \<Rightarrow> filter_node list" where
  "memory_nodes 0 w dir = []"
| "memory_nodes (Suc n) w dir =
     concat (map (\<lambda>e. case snd e of
                         ChildLeaf l \<Rightarrow>
                           [LeafNode l (case leaf_content w l of
                                          Inl file \<Rightarrow> [fst file]
                                        | Inr target \<Rightarrow> [])]
                       | ChildDirectory c \<Rightarrow>
                           (case tree_digest w c of
                              Some treeDigest \<Rightarrow> [DirectoryNode c (Inr [treeDigest])]
                            | None \<Rightarrow> memory_nodes n w c))
                 (children w dir))"

definition memory_ChildRemover :: "nat \<Rightarrow> world \<Rightarrow> error option \<times> world" where
  "memory_ChildRemover r w =
     (case tree_digest w r of
        Some treeDigest \<Rightarrow> (None, w\<lparr>tree_digest := (tree_digest w)(r := None)\<rparr>)
      | None \<Rightarrow>
          (None, w\<lparr>children := (\<lambda>dir. filter (\<lambda>e. snd e \<noteq> ChildLeaf r) (children w dir))\<rparr>))"

fun strip_root :: "pcomp list \<Rightarrow> pcomp list \<Rightarrow> pcomp list option" where
  "strip_root [] cs = Some cs"
| "strip_root (r # rs) [] = None"
| "strip_root (r # rs) (c # cs) =
     (if c = Skip then strip_root (r # rs) cs
      else if c = r then strip_root rs cs
      else None)"

fun render_event :: "event \<Rightarrow> string" where
  "render_event (OnScopeEvent a cs) = []"
| "render_event (OnDirectoryEvent s name l) = (if l then [] else CHR ''/'' # name)"
| "render_event (OnTerminalEvent s name l) = (if l then [] else CHR ''/'' # name)"
| "render_event (OnUpEvent s) = ''/..''"

definition memory_collaborators :: "nat \<Rightarrow> world collaborators" where
  "memory_collaborators threshold =
     \<lparr>RecommendedFindMissingDigestsCount = threshold,
      FindMissing = (\<lambda>digests w. (Inr (filter (\<lambda>x. x \<in> digests) (absent w)), w)),
      FilterChildren = (\<lambda>dir w. (memory_nodes (Suc (made w)) w dir, None)),
      ChildRemover = memory_ChildRemover,
      NewCASFileFactory = (\<lambda>w. (made w, w\<lparr>made := Suc (made w)\<rparr>)),
      StartInitialBuild =
        (\<lambda>outputBase factory f w.
           (made w, w\<lparr>children := (children w)(made w := []),
                      tree_digest := (tree_digest w)(made w := None),
                      made := Suc (made w)\<rparr>)),
      OutputPathFactory_Clean = (\<lambda>outputBase w. (None, w)),
      RemoveAllChildren = (\<lambda>dir forbid w. (None, w\<lparr>children := (children w)(dir := [])\<rparr>)),
      Directory_FinalizeBuild = (\<lambda>dir f w. w),
      NotifyRemoval = (\<lambda>outputBase w. w),
      NewVirtualRootScopeWalkerFactory =
        (\<lambda>prefix outputBase aliases.
           Inr (strip_root (filter (\<lambda>c. c \<noteq> Skip) prefix @ [Name outputBase]))),
      GetDigestFunction =
        (\<lambda>instanceName f. if f = 0 then Inl (Status InvalidArgument) else Inr (instanceName, f)),
      NewDigestFromProto =
        (\<lambda>f proto. if snd proto < 0 then Inl (Status InvalidArgument)
                    else Inr \<lparr>digest_function_of = f, hash = fst proto, sizeBytes = snd proto\<rparr>),
      CreateAndEnterPrepopulatedDirectory = memory_CreateAndEnter,
      CreateChildren = memory_CreateChildren,
      LookupChild = memory_LookupChild,
      LookupFile =
        (\<lambda>factory d x w.
           (made w, w\<lparr>leaf_content := (leaf_content w)(made w := Inl (d, x)),
                      made := Suc (made w)\<rparr>)),
      LookupSymlink =
        (\<lambda>target w.
           (made w, w\<lparr>leaf_content := (leaf_content w)(made w := Inr target),
                      made := Suc (made w)\<rparr>)),
      Unlink = (\<lambda>l w. w),
      Readlink =
        (\<lambda>l w. case leaf_content w l of
                   Inl file \<Rightarrow> Inl (Errno EINVAL)
                 | Inr target \<Rightarrow> Inr target),
      GetOutputServiceFileStatus =
        (\<lambda>l f w. case leaf_content w l of
                     Inl file \<Rightarrow> (Inr (FS_File (if f = None then None else Some (fst file))), w)
                   | Inr target \<Rightarrow> (Inr (FS_Symlink target), w)),
      GetLastDataModificationTime = (\<lambda>dir w. Some 0),
      maximumSymlinkRedirections = 40,
      Builder_String = (\<lambda>tr. concat (map render_event tr))\<rparr>"

definition empty_world :: world where
  "empty_world =
     \<lparr>children = (\<lambda>dir. []), tree_digest = (\<lambda>dir. None),
      leaf_content = (\<lambda>l. Inr []), made = 0, absent = []\<rparr>"

subsection \<open>Properties of the registry\<close>

text \<open>
  What the claims say of the two maps: every entry of the build ID map leads to an
  object whose buildState is set and carries that build ID, and the object is
  registered in the output base map under its own output base ID.
\<close>

definition buildIDs_consistent :: "RemoteOutputServiceDirectory \<Rightarrow> bool" where
  "buildIDs_consistent d =
     (\<forall>b s. buildIDs d b = Some s \<longrightarrow>
        (\<exists>bs. buildState (objects d s) = Some bs \<and> build_id bs = b) \<and>
        outputBaseIDs d (outputBaseID (objects d s)) = Some s)"

text \<open>
  The invariant of the registry that the operations keep: the above, every entry of
  the output base map leads to an allocated object, not the head of the list, that
  carries that output base ID, and the head of the list is allocated.
\<close>

definition registry_invariant :: "RemoteOutputServiceDirectory \<Rightarrow> bool" where
  "registry_invariant d =
     (buildIDs_consistent d \<and>
      (\<forall>ob s. outputBaseIDs d ob = Some s \<longrightarrow>
         outputBaseID (objects d s) = ob \<and> s \<noteq> 0 \<and> s < allocated d) \<and>
      0 < allocated d)"

subsection \<open>Examples\<close>

definition K2 :: "world collaborators" where "K2 = memory_collaborators 2"

definition request_for :: "string \<Rightarrow> string \<Rightarrow> StartBuildRequest" where
  "request_for outputBase b =
     \<lparr>OutputPathPrefix = ''/out'', OutputBaseId = outputBase, BuildId = b,
      InstanceName = ''main'', DigestFunction = 1, OutputPathAliases = []\<rparr>"

definition state1 :: "RemoteOutputServiceDirectory \<times> world" where
  "state1 =
     run K2 [StartBuildOp (request_for ''ob1'' ''b1'')]
       (NewRemoteOutputServiceDirectory 100, empty_world)"

definition state2 :: "RemoteOutputServiceDirectory \<times> world" where
  "state2 = run K2 [StartBuildOp (request_for ''ob2'' ''b2'')] state1"

text \<open>A call that makes a build ID active again: StartBuild with that build ID.\<close>

fun restarts :: "string \<Rightarrow> operation \<Rightarrow> bool" where
  "restarts b (StartBuildOp request) = (BuildId request = b)"
| "restarts b operation = False"

text \<open>The calls the path builder sees while the void walker consumes components.\<close>

fun void_events :: "pcomp list \<Rightarrow> event list" where
  "void_events [] = []"
| "void_events (Skip # cs) = void_events cs"
| "void_events (Up # cs) = OnUpEvent False # void_events cs"
| "void_events (Name name # cs) =
     (if cs = [] then OnTerminalEvent False name False else OnDirectoryEvent False name False)
       # void_events cs"

definition buildState1 :: buildState where
  "buildState1 =
     \<lparr>build_id = ''b1'', digestFunction = (''main'', 1),
      scopeWalkerFactory = strip_root [Name ''out'', Name ''ob1'']\<rparr>"

definition oversized_request :: BatchCreateRequest where
  "oversized_request =
     \<lparr>create_BuildId = ''b1'', PathPrefix = ''pre'', CleanPathPrefix = False,
      Files = [\<lparr>file_Path = ''f'', file_Digest = (''h1'', 5), IsExecutable = True\<rparr>],
      Directories = [\<lparr>directory_Path = ''d'', TreeDigest = (''h2'', 500)\<rparr>],
      Symlinks = [\<lparr>symlink_Path = ''l'', Target = ''f''\<rparr>]\<rparr>"

definition stat_request :: BatchStatRequest where
  "stat_request =
     \<lparr>stat_BuildId = ''b1'', Paths = [''nope'', [], ''../x''],
      FollowSymlinks = True, IncludeFileDigest = True\<rparr>"

subsection \<open>Properties of the filter\<close>

fun node_id :: "filter_node \<Rightarrow> nat" where
  "node_id (LeafNode r digests) = r"
| "node_id (DirectoryNode r result) = r"

fun node_digests :: "filter_node \<Rightarrow> error + digest list" where
  "node_digests (LeafNode r digests) = Inr digests"
| "node_digests (DirectoryNode r result) = result"

text \<open>A node whose digests are known and hold one of another digest function.\<close>

definition foreign :: "digest_function \<Rightarrow> filter_node \<Rightarrow> bool" where
  "foreign f node =
     (case node_digests node of
        Inl err \<Rightarrow> False
      | Inr digests \<Rightarrow> \<exists>x \<in> set digests. \<not> UsesDigestFunction x f)"

text \<open>A directory whose digests cannot be computed because it was not found.\<close>

definition not_found :: "filter_node \<Rightarrow> bool" where
  "not_found node =
     (case node_digests node of
        Inl err \<Rightarrow> status_Code err = NotFound
      | Inr digests \<Rightarrow> False)"

text \<open>
  The digests that the filter retains for a node, each with the node: those of a node
  whose digests are known and all of the digest function of the build.
\<close>

definition retained :: "digest_function \<Rightarrow> filter_node \<Rightarrow> (digest \<times> nat) list" where
  "retained f node =
     (case node_digests node of
        Inl err \<Rightarrow> []
      | Inr digests \<Rightarrow>
          if \<forall>x \<in> set digests. UsesDigestFunction x f
          then map (\<lambda>x. (x, node_id node)) digests else [])"

definition occurrences :: "digest_function \<Rightarrow> filter_node list \<Rightarrow> (digest \<times> nat) list" where
  "occurrences f nodes = concat (map (retained f) nodes)"

fun is_FindMissingCall :: "filter_event \<Rightarrow> bool" where
  "is_FindMissingCall (FindMissingCall digests answer) = True"
| "is_FindMissingCall (ChildRemoverCall r) = False"

definition findMissing_calls :: "filter_event list \<Rightarrow> nat" where
  "findMissing_calls tr = length (filter is_FindMissingCall tr)"

definition removed :: "filter_event list \<Rightarrow> nat set" where
  "removed tr = {r. ChildRemoverCall r \<in> set tr}"

text \<open>Every set given to FindMissing holds digests of the digest function only.\<close>

definition submits_only :: "digest_function \<Rightarrow> filter_event list \<Rightarrow> bool" where
  "submits_only f tr =
     (\<forall>digests answer x. FindMissingCall digests answer \<in> set tr \<longrightarrow> x \<in> digests \<longrightarrow>
        UsesDigestFunction x f)"

text \<open>Every key of the queue is a digest of the digest function.\<close>

definition queue_uses :: "digest_function \<Rightarrow> queue \<Rightarrow> bool" where
  "queue_uses f q = (\<forall>x \<in> set (map fst q). UsesDigestFunction x f)"

text \<open>
  The store answers every FindMissing call of the run according to one set of
  missing blobs: of the digests it is asked about, it reports those of the set.
\<close>

definition answers_from :: "digest set \<Rightarrow> filter_event list \<Rightarrow> bool" where
  "answers_from missing tr =
     (\<forall>digests answer. FindMissingCall digests (Inr answer) \<in> set tr \<longrightarrow>
        set answer \<inter> digests = missing \<inter> digests)"

definition digest_a :: digest where
  "digest_a = \<lparr>digest_function_of = (''main'', 1), hash = ''a'', sizeBytes = 1\<rparr>"

definition digest_b :: digest where
  "digest_b = \<lparr>digest_function_of = (''main'', 1), hash = ''b'', sizeBytes = 1\<rparr>"

definition digest_c :: digest where
  "digest_c = \<lparr>digest_function_of = (''other'', 1), hash = ''c'', sizeBytes = 1\<rparr>"

text \<open>
  A tree of three files, at the root 1, of which the first and the last have the same
  contents, in a store that lacks the blob of these contents.
\<close>

definition shared_world :: world where
  "shared_world =
     \<lparr>children = (\<lambda>dir. if dir = 1
                         then [(''x'', ChildLeaf 2), (''y'', ChildLeaf 3), (''z'', ChildLeaf 4)]
                         else []),
      tree_digest = (\<lambda>dir. None),
      leaf_content = (\<lambda>l. if l = 2 then Inl (digest_a, False)
                          else if l = 3 then Inl (digest_b, False)
                          else if l = 4 then Inl (digest_a, False)
                          else Inr []),
      made = 5,
      absent = [digest_a]\<rparr>"


text \<open>A tree of three files with different contents, one of another instance name.\<close>

definition plain_world :: world where
  "plain_world =
     shared_world\<lparr>children := (\<lambda>dir. if dir = 1
                         then [(''x'', ChildLeaf 2), (''y'', ChildLeaf 3), (''v'', ChildLeaf 5)]
                         else []),
                  leaf_content := (\<lambda>l. if l = 2 then Inl (digest_a, False)
                          else if l = 3 then Inl (digest_b, False)
                          else if l = 5 then Inl (digest_c, False)
                          else Inr []),
                  made := 6\<rparr>"

text \<open>The nodes that a flush of the queue removes when the blobs of a set are missing.\<close>

definition pending :: "digest set \<Rightarrow> queue \<Rightarrow> nat set" where
  "pending missing q = {r. \<exists>x \<in> missing. r \<in> set (queue_lookup q x)}"

text \<open>The node that the callback removes itself, without asking the store.\<close>

definition removed_outright :: "digest_function \<Rightarrow> filter_node \<Rightarrow> nat set" where
  "removed_outright f node = (if foreign f node \<or> not_found node then {node_id node} else {})"

text \<open>
  The events as calls on the collaborators. \<open>replay\<close> makes the calls of a list
  of events in order, a FindMissing call for every FindMissingCall and a ChildRemover
  call for every ChildRemoverCall, and returns the state that the collaborators are
  left in.
\<close>

fun replay :: "'w collaborators \<Rightarrow> filter_event list \<Rightarrow> 'w \<Rightarrow> 'w" where
  "replay K [] w = w"
| "replay K (FindMissingCall digests answer # es) w = replay K es (snd (FindMissing K digests w))"
| "replay K (ChildRemoverCall r # es) w = replay K es (snd (ChildRemover K r w))"

text \<open>
  The answers recorded in the events are those that the store gives when the calls
  are made in order from the state \<open>w\<close>.
\<close>

fun performed :: "'w collaborators \<Rightarrow> filter_event list \<Rightarrow> 'w \<Rightarrow> bool" where
  "performed K [] w = True"
| "performed K (FindMissingCall digests answer # es) w =
     (fst (FindMissing K digests w) = answer \<and> performed K es (snd (FindMissing K digests w)))"
| "performed K (ChildRemoverCall r # es) w = performed K es (snd (ChildRemover K r w))"

text \<open>No ChildRemover call fails when the calls are made in order from the state \<open>w\<close>.\<close>

fun removers_succeed :: "'w collaborators \<Rightarrow> filter_event list \<Rightarrow> 'w \<Rightarrow> bool" where
  "removers_succeed K [] w = True"
| "removers_succeed K (FindMissingCall digests answer # es) w =
     removers_succeed K es (snd (FindMissing K digests w))"
| "removers_succeed K (ChildRemoverCall r # es) w =
     (fst (ChildRemover K r w) = None \<and> removers_succeed K es (snd (ChildRemover K r w)))"

text \<open>
  A function that takes the events \<open>tr\<close> and the state \<open>w\<close> to \<open>tr'\<close> and
  \<open>w'\<close> has made the calls that it has added to the events, and no other call that
  changes the state; when it returns no error, no remover has failed.
\<close>

definition performs ::
  "'w collaborators \<Rightarrow> error option \<Rightarrow> filter_event list \<Rightarrow> 'w \<Rightarrow> filter_event list \<Rightarrow> 'w \<Rightarrow> bool" where
  "performs K err tr w tr' w' =
     (\<exists>ext. tr' = tr @ ext \<and> w' = replay K ext w \<and> performed K ext w \<and>
        (err = None \<longrightarrow> removers_succeed K ext w))"

text \<open>
  The number of batches that are made of digests taken in turn, of which \<open>batch\<close>
  are in the current batch: a digest joins the current batch, unless that batch holds
  \<open>T\<close> digests already; then the batch is closed and the digest starts the next
  one, also when it was in the batch that is closed.
\<close>

fun batches :: "nat \<Rightarrow> 'a list \<Rightarrow> 'a list \<Rightarrow> nat" where
  "batches T batch [] = (if batch = [] then 0 else 1)"
| "batches T batch (x # xs) =
     (if T \<le> length batch then Suc (batches T [x] xs)
      else batches T (if x \<in> set batch then batch else batch @ [x]) xs)"


subsection \<open>Properties of the list of output paths\<close>

text \<open>
  The objects of a list are linked when each is the \<^verbatim>\<open>next\<close> of the one before it
  and the \<^verbatim>\<open>previous\<close> of the one after it.
\<close>

fun linked :: "(addr \<Rightarrow> outputPathState) \<Rightarrow> addr list \<Rightarrow> bool" where
  "linked h [] = True"
| "linked h [p] = True"
| "linked h (p # q # ps) = (next' (h p) = q \<and> previous (h q) = p \<and> linked h (q # ps))"

text \<open>
  The circular list holds the objects \<open>xs\<close>, in this order, between the head and
  the head again.
\<close>

definition ring :: "(addr \<Rightarrow> outputPathState) \<Rightarrow> addr list \<Rightarrow> bool" where
  "ring h xs = (distinct xs \<and> 0 \<notin> set xs \<and> linked h (0 # xs @ [0]))"

text \<open>
  The list of a registry: its objects are those of the output base map, all
  allocated, in the order of their addresses, which is the order of their creation.
\<close>

definition ring_invariant :: "RemoteOutputServiceDirectory \<Rightarrow> addr list \<Rightarrow> bool" where
  "ring_invariant d xs =
     (ring (objects d) xs \<and> set xs = ran (outputBaseIDs d) \<and> sorted_wrt (<) xs \<and>
      (\<forall>x \<in> set xs. x < allocated d))"

text \<open>
  The cookies of a registry: an object made later has a larger cookie, and the
  change counter is larger than every cookie.
\<close>

definition cookie_invariant :: "RemoteOutputServiceDirectory \<Rightarrow> bool" where
  "cookie_invariant d =
     ((\<forall>x y. 0 < x \<and> x < y \<and> y < allocated d \<longrightarrow>
         cookie (objects d x) < cookie (objects d y)) \<and>
      (\<forall>x. 0 < x \<and> x < allocated d \<longrightarrow> cookie (objects d x) < changeID d))"

text \<open>The entry that VirtualReadDir reports for an object.\<close>

definition entry_of :: "(addr \<Rightarrow> outputPathState) \<Rightarrow> addr \<Rightarrow> entry" where
  "entry_of h x = (cookie (h x) + 1, outputBaseID (h x), rootDirectory (h x))"

text \<open>The entries that a reporter accepts of a list of entries offered in turn.\<close>

fun accepted :: "(entry list \<Rightarrow> entry \<Rightarrow> bool) \<Rightarrow> entry list \<Rightarrow> entry list \<Rightarrow> entry list" where
  "accepted reporter reported [] = reported"
| "accepted reporter reported (e # es) =
     (if reporter reported e then accepted reporter (reported @ [e]) es else reported)"

text \<open>\<open>x\<close> comes after \<open>y\<close> in a list.\<close>

definition listed_after :: "'a list \<Rightarrow> 'a \<Rightarrow> 'a \<Rightarrow> bool" where
  "listed_after xs y x = (\<exists>as bs cs. xs = as @ y # bs @ x # cs)"

text \<open>The registry reached from the initial one by a sequence of calls.\<close>

definition reached ::
  "'w collaborators \<Rightarrow> int \<Rightarrow> 'w \<Rightarrow> operation list \<Rightarrow> RemoteOutputServiceDirectory" where
  "reached K m w ops = fst (run K ops (NewRemoteOutputServiceDirectory m, w))"

text \<open>All that the operations keep of the registry, \<open>xs\<close> being the list.\<close>

definition enumeration_invariant :: "RemoteOutputServiceDirectory \<Rightarrow> addr list \<Rightarrow> bool" where
  "enumeration_invariant d xs = (registry_invariant d \<and> ring_invariant d xs \<and> cookie_invariant d)"

text \<open>
  What the calls keep of a registry \<open>d\<close>, \<open>d'\<close> being a later registry: the
  objects that were allocated, with their entries.
\<close>

definition evolves :: "RemoteOutputServiceDirectory \<Rightarrow> RemoteOutputServiceDirectory \<Rightarrow> bool" where
  "evolves d d' =
     (allocated d \<le> allocated d' \<and>
      (\<forall>x. x < allocated d \<longrightarrow> entry_of (objects d') x = entry_of (objects d) x))"

text \<open>
  Calls that make the change counter advance: an output base \<open>a\<close> is created,
  another output base is created and cleaned \<open>n\<close> times, and two more output
  bases are created. Every creation and every cleaning adds one to the counter.
\<close>

definition wrapping_calls :: "nat \<Rightarrow> operation list" where
  "wrapping_calls n =
     StartBuildOp (request_for ''a'' ''ba'') #
     concat (replicate n [StartBuildOp (request_for ''b'' ''bb''), CleanOp ''b'']) @
     [StartBuildOp (request_for ''c'' ''bc''), StartBuildOp (request_for ''e'' ''be'')]"

text \<open>
  The registry holds the output base \<open>a\<close> alone, made first, with the build
  \<open>ba\<close>.
\<close>

definition only_a :: "RemoteOutputServiceDirectory \<Rightarrow> bool" where
  "only_a d =
     (registry_invariant d \<and> ring_invariant d [1] \<and>
      outputBaseIDs d = [''a'' \<mapsto> 1] \<and> buildIDs d = [''ba'' \<mapsto> 1] \<and>
      cookie (objects d 1) = 0)"

text \<open>Two output bases are created; then the first is cleaned and a third is created.\<close>

definition first_calls :: "operation list" where
  "first_calls =
     [StartBuildOp (request_for ''ob1'' ''b1''), StartBuildOp (request_for ''ob2'' ''b2'')]"

definition later_calls :: "operation list" where
  "later_calls = [CleanOp ''ob1'', StartBuildOp (request_for ''ob3'' ''b3'')]"

text \<open>
  The number of calls of a sequence that change the change counter, made in order
  from a state: the creations of an output path and the cleanings of a registered
  output base.
\<close>

fun counter_moves ::
  "'w collaborators \<Rightarrow> operation list \<Rightarrow> RemoteOutputServiceDirectory \<times> 'w \<Rightarrow> nat" where
  "counter_moves K [] s = 0"
| "counter_moves K (operation # ops) s =
     (if changeID (fst (step K operation s)) = changeID (fst s) then 0 else 1) +
       counter_moves K ops (step K operation s)"

section \<open>The registry maps\<close>

lemma set_next_simps [simp]:
  "next' (set_next h p v q) = (if q = p then v else next' (h q))"
  "previous (set_next h p v q) = previous (h q)"
  "buildState (set_next h p v q) = buildState (h q)"
  "cookie (set_next h p v q) = cookie (h q)"
  "outputBaseID (set_next h p v q) = outputBaseID (h q)"
  "rootDirectory (set_next h p v q) = rootDirectory (h q)"
  "casFileFactory (set_next h p v q) = casFileFactory (h q)"
  by (simp_all add: set_next_def)

lemma set_previous_simps [simp]:
  "previous (set_previous h p v q) = (if q = p then v else previous (h q))"
  "next' (set_previous h p v q) = next' (h q)"
  "buildState (set_previous h p v q) = buildState (h q)"
  "cookie (set_previous h p v q) = cookie (h q)"
  "outputBaseID (set_previous h p v q) = outputBaseID (h q)"
  "rootDirectory (set_previous h p v q) = rootDirectory (h q)"
  "casFileFactory (set_previous h p v q) = casFileFactory (h q)"
  by (simp_all add: set_previous_def)

lemma set_buildState_simps [simp]:
  "buildState (set_buildState h p v q) = (if q = p then v else buildState (h q))"
  "next' (set_buildState h p v q) = next' (h q)"
  "previous (set_buildState h p v q) = previous (h q)"
  "cookie (set_buildState h p v q) = cookie (h q)"
  "outputBaseID (set_buildState h p v q) = outputBaseID (h q)"
  "rootDirectory (set_buildState h p v q) = rootDirectory (h q)"
  "casFileFactory (set_buildState h p v q) = casFileFactory (h q)"
  by (simp_all add: set_buildState_def)

lemma registry_invariant_New: "registry_invariant (NewRemoteOutputServiceDirectory m)"
  by (simp add: registry_invariant_def buildIDs_consistent_def NewRemoteOutputServiceDirectory_def)


lemma invD_build:
  "registry_invariant d \<Longrightarrow> buildIDs d b = Some s \<Longrightarrow>
     \<exists>bs. buildState (objects d s) = Some bs \<and> build_id bs = b"
  by (simp add: registry_invariant_def buildIDs_consistent_def)

lemma invD_build_base:
  "registry_invariant d \<Longrightarrow> buildIDs d b = Some s \<Longrightarrow>
     outputBaseIDs d (outputBaseID (objects d s)) = Some s"
  by (simp add: registry_invariant_def buildIDs_consistent_def)

lemma invD_base:
  "registry_invariant d \<Longrightarrow> outputBaseIDs d ob = Some s \<Longrightarrow>
     outputBaseID (objects d s) = ob \<and> s \<noteq> 0 \<and> s < allocated d"
  by (simp add: registry_invariant_def)

lemma invD_alloc: "registry_invariant d \<Longrightarrow> 0 < allocated d"
  by (simp add: registry_invariant_def)

lemma invD_build_alloc:
  "registry_invariant d \<Longrightarrow> buildIDs d b = Some s \<Longrightarrow> s \<noteq> 0 \<and> s < allocated d"
  using invD_base invD_build_base by blast

lemma registry_invariantI:
  assumes "\<And>b s. buildIDs d b = Some s \<Longrightarrow>
             \<exists>bs. buildState (objects d s) = Some bs \<and> build_id bs = b"
    and "\<And>b s. buildIDs d b = Some s \<Longrightarrow>
             outputBaseIDs d (outputBaseID (objects d s)) = Some s"
    and "\<And>ob s. outputBaseIDs d ob = Some s \<Longrightarrow>
             outputBaseID (objects d s) = ob \<and> s \<noteq> 0 \<and> s < allocated d"
    and "0 < allocated d"
  shows "registry_invariant d"
  using assms unfolding registry_invariant_def buildIDs_consistent_def by blast


lemma Clean_locked_fields:
  assumes "outputBaseIDs d ob = Some p"
  shows "outputBaseIDs (Clean_locked ob p d) = (outputBaseIDs d)(ob := None)"
    and "buildIDs (Clean_locked ob p d) =
           (case buildState (objects d p) of None \<Rightarrow> buildIDs d
            | Some bs \<Rightarrow> (buildIDs d)(build_id bs := None))"
    and "allocated (Clean_locked ob p d) = allocated d"
    and "changeID (Clean_locked ob p d) = changeID d + 1"
    and "maximumTreeSizeBytes (Clean_locked ob p d) = maximumTreeSizeBytes d"
    and "buildState (objects (Clean_locked ob p d) q) =
           (if q = p then None else buildState (objects d q))"
    and "outputBaseID (objects (Clean_locked ob p d) q) = outputBaseID (objects d q)"
    and "cookie (objects (Clean_locked ob p d) q) = cookie (objects d q)"
    and "rootDirectory (objects (Clean_locked ob p d) q) = rootDirectory (objects d q)"
    and "casFileFactory (objects (Clean_locked ob p d) q) = casFileFactory (objects d q)"
  using assms by (simp_all add: Clean_locked_def Let_def split: option.splits)

lemma registry_invariant_Clean_locked:
  assumes inv: "registry_invariant d"
  shows "registry_invariant (Clean_locked ob p d)"
proof (cases "outputBaseIDs d ob = Some p")
  case False
  then show ?thesis using inv by (simp add: Clean_locked_def)
next
  case True
  note F = Clean_locked_fields [OF True]
  note B = invD_base [OF inv] and U = invD_build [OF inv] and UB = invD_build_base [OF inv]
  have pob: "outputBaseID (objects d p) = ob" using B True by blast
  have np: "buildIDs (Clean_locked ob p d) b \<noteq> Some p" for b
    using U [of b p] by (auto simp: F split: option.splits if_splits)
  have sub: "buildIDs (Clean_locked ob p d) b = Some s \<Longrightarrow> buildIDs d b = Some s" for b s
    by (auto simp: F split: option.splits if_splits)
  show ?thesis
  proof (rule registry_invariantI)
    fix b s assume h: "buildIDs (Clean_locked ob p d) b = Some s"
    then have sp: "s \<noteq> p" using np by blast
    from sub [OF h] have h': "buildIDs d b = Some s" .
    show "\<exists>bs. buildState (objects (Clean_locked ob p d) s) = Some bs \<and> build_id bs = b"
      using U [OF h'] sp by (simp add: F)
    have "outputBaseID (objects d s) \<noteq> ob" using UB [OF h'] True sp by auto
    then show "outputBaseIDs (Clean_locked ob p d) (outputBaseID (objects (Clean_locked ob p d) s)) = Some s"
      using UB [OF h'] by (simp add: F)
  next
    fix ob' s assume "outputBaseIDs (Clean_locked ob p d) ob' = Some s"
    then have "outputBaseIDs d ob' = Some s" by (auto simp: F split: if_splits)
    then show "outputBaseID (objects (Clean_locked ob p d) s) = ob' \<and> s \<noteq> 0 \<and>
        s < allocated (Clean_locked ob p d)"
      using B by (simp add: F)
  next
    show "0 < allocated (Clean_locked ob p d)" using invD_alloc [OF inv] by (simp add: F)
  qed
qed

lemma FinalizeBuild_fields:
  assumes "buildIDs d b = Some p" "buildState (objects d p) = Some bs"
  shows "outputBaseIDs (fst (snd (FinalizeBuild K b d w))) = outputBaseIDs d"
    and "buildIDs (fst (snd (FinalizeBuild K b d w))) = (buildIDs d)(build_id bs := None)"
    and "allocated (fst (snd (FinalizeBuild K b d w))) = allocated d"
    and "changeID (fst (snd (FinalizeBuild K b d w))) = changeID d"
    and "maximumTreeSizeBytes (fst (snd (FinalizeBuild K b d w))) = maximumTreeSizeBytes d"
    and "buildState (objects (fst (snd (FinalizeBuild K b d w))) q) =
           (if q = p then None else buildState (objects d q))"
    and "outputBaseID (objects (fst (snd (FinalizeBuild K b d w))) q) = outputBaseID (objects d q)"
    and "cookie (objects (fst (snd (FinalizeBuild K b d w))) q) = cookie (objects d q)"
    and "next' (objects (fst (snd (FinalizeBuild K b d w))) q) = next' (objects d q)"
    and "previous (objects (fst (snd (FinalizeBuild K b d w))) q) = previous (objects d q)"
    and "rootDirectory (objects (fst (snd (FinalizeBuild K b d w))) q) = rootDirectory (objects d q)"
    and "casFileFactory (objects (fst (snd (FinalizeBuild K b d w))) q) = casFileFactory (objects d q)"
  using assms by (simp_all add: FinalizeBuild_def)

lemma registry_invariant_FinalizeBuild:
  assumes inv: "registry_invariant d"
  shows "registry_invariant (fst (snd (FinalizeBuild K b d w)))"
proof (cases "buildIDs d b")
  case None
  then show ?thesis using inv by (simp add: FinalizeBuild_def)
next
  case (Some p)
  note B = invD_base [OF inv] and U = invD_build [OF inv] and UB = invD_build_base [OF inv]
  from U [OF Some] obtain bs where bs: "buildState (objects d p) = Some bs" "build_id bs = b"
    by blast
  note F = FinalizeBuild_fields [OF Some bs(1), of K w]
  let ?d = "fst (snd (FinalizeBuild K b d w))"
  have sub: "buildIDs ?d b' = Some s \<Longrightarrow> buildIDs d b' = Some s \<and> s \<noteq> p" for b' s
    using U [of b' p] bs by (auto simp: F split: if_splits)
  show ?thesis
  proof (rule registry_invariantI)
    fix b' s assume h: "buildIDs ?d b' = Some s"
    from sub [OF h] have h': "buildIDs d b' = Some s" and sp: "s \<noteq> p" by auto
    show "\<exists>bs. buildState (objects ?d s) = Some bs \<and> build_id bs = b'"
      using U [OF h'] sp by (simp add: F)
    show "outputBaseIDs ?d (outputBaseID (objects ?d s)) = Some s"
      using UB [OF h'] by (simp add: F)
  next
    fix ob' s assume "outputBaseIDs ?d ob' = Some s"
    then show "outputBaseID (objects ?d s) = ob' \<and> s \<noteq> 0 \<and> s < allocated ?d"
      using B by (simp add: F)
  next
    show "0 < allocated ?d" using invD_alloc [OF inv] by (simp add: F)
  qed
qed

text \<open>StartBuild with a build ID that is registered changes nothing.\<close>

lemma StartBuild_locked_known:
  "buildIDs d b = Some p \<Longrightarrow> StartBuild_locked K b ob f v d w = (p, d, w)"
  by (simp add: StartBuild_locked_def)

text \<open>StartBuild on an output base that is registered.\<close>

lemma StartBuild_locked_reuse:
  assumes "buildIDs d b = None" "outputBaseIDs d ob = Some p"
  shows "fst (StartBuild_locked K b ob f v d w) = p"
    and "snd (snd (StartBuild_locked K b ob f v d w)) = w"
    and "outputBaseIDs (fst (snd (StartBuild_locked K b ob f v d w))) = outputBaseIDs d"
    and "buildIDs (fst (snd (StartBuild_locked K b ob f v d w))) =
           (case buildState (objects d p) of None \<Rightarrow> (buildIDs d)(b \<mapsto> p)
            | Some bs \<Rightarrow> ((buildIDs d)(build_id bs := None))(b \<mapsto> p))"
    and "allocated (fst (snd (StartBuild_locked K b ob f v d w))) = allocated d"
    and "changeID (fst (snd (StartBuild_locked K b ob f v d w))) = changeID d"
    and "maximumTreeSizeBytes (fst (snd (StartBuild_locked K b ob f v d w))) = maximumTreeSizeBytes d"
    and "buildState (objects (fst (snd (StartBuild_locked K b ob f v d w))) q) =
           (if q = p then Some \<lparr>build_id = b, digestFunction = f, scopeWalkerFactory = v\<rparr>
            else buildState (objects d q))"
    and "outputBaseID (objects (fst (snd (StartBuild_locked K b ob f v d w))) q) = outputBaseID (objects d q)"
    and "cookie (objects (fst (snd (StartBuild_locked K b ob f v d w))) q) = cookie (objects d q)"
    and "next' (objects (fst (snd (StartBuild_locked K b ob f v d w))) q) = next' (objects d q)"
    and "previous (objects (fst (snd (StartBuild_locked K b ob f v d w))) q) = previous (objects d q)"
    and "rootDirectory (objects (fst (snd (StartBuild_locked K b ob f v d w))) q) = rootDirectory (objects d q)"
    and "casFileFactory (objects (fst (snd (StartBuild_locked K b ob f v d w))) q) = casFileFactory (objects d q)"
  using assms by (simp_all add: StartBuild_locked_def split: option.splits)

text \<open>StartBuild on a fresh output base.\<close>

lemma StartBuild_locked_fresh:
  assumes "buildIDs d b = None" "outputBaseIDs d ob = None"
  shows "fst (StartBuild_locked K b ob f v d w) = allocated d"
    and "outputBaseIDs (fst (snd (StartBuild_locked K b ob f v d w))) =
           (outputBaseIDs d)(ob \<mapsto> allocated d)"
    and "buildIDs (fst (snd (StartBuild_locked K b ob f v d w))) = (buildIDs d)(b \<mapsto> allocated d)"
    and "allocated (fst (snd (StartBuild_locked K b ob f v d w))) = Suc (allocated d)"
    and "changeID (fst (snd (StartBuild_locked K b ob f v d w))) = changeID d + 1"
    and "maximumTreeSizeBytes (fst (snd (StartBuild_locked K b ob f v d w))) = maximumTreeSizeBytes d"
    and "buildState (objects (fst (snd (StartBuild_locked K b ob f v d w))) q) =
           (if q = allocated d
            then Some \<lparr>build_id = b, digestFunction = f, scopeWalkerFactory = v\<rparr>
            else buildState (objects d q))"
    and "outputBaseID (objects (fst (snd (StartBuild_locked K b ob f v d w))) q) =
           (if q = allocated d then ob else outputBaseID (objects d q))"
    and "cookie (objects (fst (snd (StartBuild_locked K b ob f v d w))) q) =
           (if q = allocated d then changeID d else cookie (objects d q))"
  using assms
  by (simp_all add: StartBuild_locked_def Let_def split: option.splits prod.splits)

lemma registry_invariant_StartBuild_locked:
  assumes inv: "registry_invariant d"
  shows "registry_invariant (fst (snd (StartBuild_locked K b ob f v d w)))"
proof (cases "buildIDs d b")
  case (Some p)
  then show ?thesis using inv by (simp add: StartBuild_locked_def)
next
  case None
  note B = invD_base [OF inv] and U = invD_build [OF inv] and UB = invD_build_base [OF inv]
    and A = invD_build_alloc [OF inv]
  let ?d = "fst (snd (StartBuild_locked K b ob f v d w))"
  show ?thesis
  proof (cases "outputBaseIDs d ob")
    case ob: None
    note F = StartBuild_locked_fresh [OF None ob, of K f v w]
    show ?thesis
    proof (rule registry_invariantI)
      fix b' s assume h: "buildIDs ?d b' = Some s"
      show "\<exists>bs. buildState (objects ?d s) = Some bs \<and> build_id bs = b'"
        using h U [of b' s] A [of b' s] by (auto simp: F split: if_splits)
      show "outputBaseIDs ?d (outputBaseID (objects ?d s)) = Some s"
        using h UB [of b' s] A [of b' s] ob by (auto simp: F split: if_splits)
    next
      fix ob' s assume "outputBaseIDs ?d ob' = Some s"
      then show "outputBaseID (objects ?d s) = ob' \<and> s \<noteq> 0 \<and> s < allocated ?d"
        using B [of ob' s] invD_alloc [OF inv] by (auto simp: F split: if_splits)
    next
      show "0 < allocated ?d" by (simp add: F)
    qed
  next
    case ob: (Some p)
    note F = StartBuild_locked_reuse [OF None ob, of K f v w]
    have pob: "outputBaseID (objects d p) = ob" using B ob by blast
    have np: "buildIDs ?d b' = Some p \<Longrightarrow> b' = b" for b'
      using U [of b' p] by (auto simp: F split: option.splits if_splits)
    have sub: "buildIDs ?d b' = Some s \<Longrightarrow> s \<noteq> p \<Longrightarrow> buildIDs d b' = Some s" for b' s
      by (auto simp: F split: option.splits if_splits)
    show ?thesis
    proof (rule registry_invariantI)
      fix b' s assume h: "buildIDs ?d b' = Some s"
      show "\<exists>bs. buildState (objects ?d s) = Some bs \<and> build_id bs = b'"
        using np [of b'] sub [OF h] U [of b' s] h by (cases "s = p") (auto simp: F)
      show "outputBaseIDs ?d (outputBaseID (objects ?d s)) = Some s"
        using sub [OF h] UB [of b' s] ob pob by (cases "s = p") (auto simp: F)
    next
      fix ob' s assume "outputBaseIDs ?d ob' = Some s"
      then show "outputBaseID (objects ?d s) = ob' \<and> s \<noteq> 0 \<and> s < allocated ?d"
        using B by (simp add: F)
    next
      show "0 < allocated ?d" using invD_alloc [OF inv] by (simp add: F)
    qed
  qed
qed

lemma StartBuild_registry:
  "fst (snd (snd (StartBuild K req d w))) = d \<or>
   (\<exists>ob f v. fst (snd (snd (StartBuild K req d w))) =
                fst (snd (StartBuild_locked K (BuildId req) ob f v d w)))"
  apply (simp add: StartBuild_def split: option.splits sum.splits prod.splits)
  apply (intro allI impI conjI)
   apply (metis fst_conv snd_conv)+
  done

lemma registry_invariant_StartBuild:
  "registry_invariant d \<Longrightarrow> registry_invariant (fst (snd (snd (StartBuild K req d w))))"
  using StartBuild_registry [of K req d w] registry_invariant_StartBuild_locked by metis

lemma Clean_registry:
  "fst (snd (Clean K x d w)) = d \<or> (\<exists>ob p. fst (snd (Clean K x d w)) = Clean_locked ob p d)"
  by (auto simp: Clean_def split: option.splits prod.splits)

lemma registry_invariant_Clean:
  "registry_invariant d \<Longrightarrow> registry_invariant (fst (snd (Clean K x d w)))"
  using Clean_registry [of K x d w] registry_invariant_Clean_locked by metis

lemma registry_invariant_step:
  "registry_invariant (fst s) \<Longrightarrow> registry_invariant (fst (step K op s))"
  by (cases s; cases op)
     (simp_all add: registry_invariant_Clean registry_invariant_StartBuild
        registry_invariant_FinalizeBuild)

lemma registry_invariant_run:
  "registry_invariant (fst s) \<Longrightarrow> registry_invariant (fst (run K ops s))"
  by (induction ops arbitrary: s) (simp_all add: registry_invariant_step)

lemma one_build_id_per_state:
  assumes "registry_invariant d" "buildIDs d b = Some s" "buildIDs d b' = Some s"
  shows "b = b'"
  using invD_build [OF assms(1) assms(2)] invD_build [OF assms(1) assms(3)] by auto

text \<open>
  Claim C9. The consistency of the two maps is an invariant: it holds in every state
  reached from the initial one by a sequence of calls, and Clean (also its second
  critical section alone, for any object found under the first lock), StartBuild and
  FinalizeBuild keep it. In such a state every entry of the build ID map leads to an
  object with a buildState of that build ID, registered in the output base map under
  its own output base ID, and no two build IDs lead to the same object.
\<close>

theorem registry_consistency:
  "registry_invariant (fst (run K ops (NewRemoteOutputServiceDirectory m, w0))) \<and>
   (registry_invariant d \<longrightarrow>
      buildIDs_consistent d \<and>
      (\<forall>b b' s. buildIDs d b = Some s \<and> buildIDs d b' = Some s \<longrightarrow> b = b') \<and>
      registry_invariant (fst (snd (Clean K x d w))) \<and>
      registry_invariant (Clean_locked ob p d) \<and>
      registry_invariant (fst (snd (snd (StartBuild K request d w)))) \<and>
      registry_invariant (fst (snd (FinalizeBuild K b d w))))"
proof (intro conjI impI)
  show "registry_invariant (fst (run K ops (NewRemoteOutputServiceDirectory m, w0)))"
    by (rule registry_invariant_run) (simp add: registry_invariant_New)
next
  assume inv: "registry_invariant d"
  show "buildIDs_consistent d" using inv by (simp add: registry_invariant_def)
  show "\<forall>b b' s. buildIDs d b = Some s \<and> buildIDs d b' = Some s \<longrightarrow> b = b'"
    using one_build_id_per_state [OF inv] by blast
  show "registry_invariant (fst (snd (Clean K x d w)))" by (rule registry_invariant_Clean [OF inv])
  show "registry_invariant (Clean_locked ob p d)" by (rule registry_invariant_Clean_locked [OF inv])
  show "registry_invariant (fst (snd (snd (StartBuild K request d w))))"
    by (rule registry_invariant_StartBuild [OF inv])
  show "registry_invariant (fst (snd (FinalizeBuild K b d w)))"
    by (rule registry_invariant_FinalizeBuild [OF inv])
qed

theorem registry_consistency_witness:
  "registry_invariant (NewRemoteOutputServiceDirectory 100) \<and>
   buildIDs_consistent (NewRemoteOutputServiceDirectory 100) \<and>
   registry_invariant
     (fst (snd (snd (StartBuild K2 (request_for ''ob1'' ''b1'')
        (NewRemoteOutputServiceDirectory 100) empty_world))))"
proof -
  have h: "registry_invariant (NewRemoteOutputServiceDirectory 100)"
    by (simp add: registry_invariant_def buildIDs_consistent_def NewRemoteOutputServiceDirectory_def)
  show ?thesis
    using h registry_consistency [of K2 "[]" 100 empty_world "NewRemoteOutputServiceDirectory 100"
        "[]" empty_world "[]" 0 "request_for ''ob1'' ''b1''" "[]"]
    by simp
qed

subsection \<open>FinalizeBuild\<close>

lemma FinalizeBuild_unknown: "buildIDs d b = None \<Longrightarrow> FinalizeBuild K b d w = (Inr (), d, w)"
  by (simp add: FinalizeBuild_def)

lemma FinalizeBuild_removes:
  assumes inv: "registry_invariant d"
  shows "buildIDs (fst (snd (FinalizeBuild K b d w))) b = None"
proof (cases "buildIDs d b")
  case None
  then show ?thesis by (simp add: FinalizeBuild_def)
next
  case (Some p)
  from invD_build [OF inv Some] obtain bs where bs: "buildState (objects d p) = Some bs" "build_id bs = b"
    by blast
  show ?thesis by (simp add: FinalizeBuild_fields [OF Some bs(1)] bs(2))
qed

lemma FinalizeBuild_succeeds:
  assumes inv: "registry_invariant d"
  shows "fst (FinalizeBuild K b d w) = Inr ()"
proof (cases "buildIDs d b")
  case None
  then show ?thesis by (simp add: FinalizeBuild_def)
next
  case (Some p)
  from invD_build [OF inv Some] obtain bs where bs: "buildState (objects d p) = Some bs" "build_id bs = b"
    by blast
  then show ?thesis using Some by (simp add: FinalizeBuild_def)
qed

text \<open>
  Claim C5. FinalizeBuild with a build ID that is not in the build ID map returns the
  empty response and changes nothing. In every state of the registry FinalizeBuild
  returns the empty response, and a second call with the same build ID returns it
  again and leaves the registry and the collaborators as the first call left them.
\<close>

theorem FinalizeBuild_idempotent:
  "(buildIDs d b = None \<longrightarrow> FinalizeBuild K b d w = (Inr (), d, w)) \<and>
   (registry_invariant d \<longrightarrow>
      fst (FinalizeBuild K b d w) = Inr () \<and>
      FinalizeBuild K b (fst (snd (FinalizeBuild K b d w))) (snd (snd (FinalizeBuild K b d w))) =
        (Inr (), snd (FinalizeBuild K b d w)))"
proof (intro conjI impI)
  assume "buildIDs d b = None"
  then show "FinalizeBuild K b d w = (Inr (), d, w)" by (rule FinalizeBuild_unknown)
next
  assume inv: "registry_invariant d"
  show "fst (FinalizeBuild K b d w) = Inr ()" by (rule FinalizeBuild_succeeds [OF inv])
  have "buildIDs (fst (snd (FinalizeBuild K b d w))) b = None"
    by (rule FinalizeBuild_removes [OF inv])
  then show "FinalizeBuild K b (fst (snd (FinalizeBuild K b d w))) (snd (snd (FinalizeBuild K b d w))) =
        (Inr (), snd (FinalizeBuild K b d w))"
    by (simp add: FinalizeBuild_unknown)
qed

theorem FinalizeBuild_idempotent_witness:
  "registry_invariant (fst state1) \<and>
   buildIDs (fst state1) ''b1'' = Some 1 \<and>
   map_option build_id (buildState (objects (fst state1) 1)) = Some ''b1'' \<and>
   fst (FinalizeBuild K2 ''b1'' (fst state1) (snd state1)) = Inr () \<and>
   buildIDs (fst (snd (FinalizeBuild K2 ''b1'' (fst state1) (snd state1)))) ''b1'' = None \<and>
   map_option build_id
       (buildState (objects (fst (snd (FinalizeBuild K2 ''b1'' (fst state1) (snd state1)))) 1)) =
     None \<and>
   FinalizeBuild K2 ''b1'' (fst (snd (FinalizeBuild K2 ''b1'' (fst state1) (snd state1))))
       (snd (snd (FinalizeBuild K2 ''b1'' (fst state1) (snd state1)))) =
     (Inr (), snd (FinalizeBuild K2 ''b1'' (fst state1) (snd state1))) \<and>
   buildIDs (NewRemoteOutputServiceDirectory 100) ''b1'' = None \<and>
   FinalizeBuild K2 ''b1'' (NewRemoteOutputServiceDirectory 100) empty_world =
     (Inr (), NewRemoteOutputServiceDirectory 100, empty_world)"
proof -
  have inv: "registry_invariant (fst state1)"
    unfolding state1_def by (rule registry_invariant_run) (simp add: registry_invariant_New)
  have active: "buildIDs (fst state1) ''b1'' = Some 1" by code_simp
  have session: "map_option build_id (buildState (objects (fst state1) 1)) = Some ''b1''"
    by code_simp
  have closed: "buildIDs (fst (snd (FinalizeBuild K2 ''b1'' (fst state1) (snd state1)))) ''b1'' = None"
    by code_simp
  have gone: "map_option build_id
      (buildState (objects (fst (snd (FinalizeBuild K2 ''b1'' (fst state1) (snd state1)))) 1)) = None"
    by code_simp
  note twice = FinalizeBuild_idempotent [of "fst state1" "''b1''" K2 "snd state1",
      THEN conjunct2, rule_format, OF inv]
  have unknown: "buildIDs (NewRemoteOutputServiceDirectory 100) ''b1'' = None"
    by (simp add: NewRemoteOutputServiceDirectory_def)
  note noop = FinalizeBuild_idempotent [of "NewRemoteOutputServiceDirectory 100" "''b1''" K2
      empty_world, THEN conjunct1, rule_format, OF unknown]
  show ?thesis
    by (intro conjI inv active session closed gone twice [THEN conjunct1] twice [THEN conjunct2]
        unknown noop)
qed

section \<open>Build sessions\<close>

subsection \<open>StartBuild with a build ID that is registered\<close>

text \<open>
  Claim C10. When the build ID of the request is in the build ID map, StartBuild
  leaves the registry as it is: the maps, the list, the change counter and every
  object with its buildState. A request that is refused changes nothing at all; for a
  request that is accepted the call is the filter, run on the tree of the object that
  the build ID leads to with the digest function of the request, and nothing else.
\<close>

theorem StartBuild_known_build_id:
  assumes "buildIDs d (BuildId request) = Some p"
  shows "fst (snd (snd (StartBuild K request d w))) = d \<and>
    (case StartBuild_request K request of
       Inl err \<Rightarrow> StartBuild K request d w = (Inl err, [], d, w)
     | Inr (outputBase, factory, digestFn) \<Rightarrow>
         StartBuild K request d w =
           (case filterMissingChildren K (rootDirectory (objects d p)) digestFn w of
              (Some err, tr, w') \<Rightarrow> (Inl (StatusWrap err), tr, d, w')
            | (None, tr, w') \<Rightarrow> (Inr outputBase, tr, d, w')))"
  using assms
  by (simp add: StartBuild_def StartBuild_locked_known split: sum.splits prod.splits option.splits)

theorem StartBuild_known_build_id_witness:
  "buildIDs (fst state1) (BuildId (request_for ''ob2'' ''b1'')) = Some 1 \<and>
   fst (snd (snd (StartBuild K2 (request_for ''ob2'' ''b1'') (fst state1) (snd state1)))) = fst state1"
proof -
  have h: "buildIDs (fst state1) (BuildId (request_for ''ob2'' ''b1'')) = Some 1"
    by code_simp
  show ?thesis
    using h StartBuild_known_build_id [OF h, of K2 "snd state1"] by simp
qed

subsection \<open>A second StartBuild on an output base\<close>

lemma Clean_locked_buildIDs_None:
  "buildIDs d b = None \<Longrightarrow> buildIDs (Clean_locked ob p d) b = None"
  by (simp add: Clean_locked_def Let_def split: option.splits)

lemma Clean_buildIDs_None:
  "buildIDs d b = None \<Longrightarrow> buildIDs (fst (snd (Clean K x d w))) b = None"
  using Clean_registry [of K x d w] Clean_locked_buildIDs_None by metis

lemma FinalizeBuild_buildIDs_None:
  "buildIDs d b = None \<Longrightarrow> buildIDs (fst (snd (FinalizeBuild K b' d w))) b = None"
  by (simp add: FinalizeBuild_def split: option.splits)

lemma StartBuild_locked_buildIDs_None:
  "buildIDs d b = None \<Longrightarrow> b' \<noteq> b \<Longrightarrow>
     buildIDs (fst (snd (StartBuild_locked K b' ob f v d w))) b = None"
  by (simp add: StartBuild_locked_def Let_def split: option.splits prod.splits)

lemma StartBuild_buildIDs_None:
  "buildIDs d b = None \<Longrightarrow> BuildId request \<noteq> b \<Longrightarrow>
     buildIDs (fst (snd (snd (StartBuild K request d w)))) b = None"
  using StartBuild_registry [of K request d w] StartBuild_locked_buildIDs_None by metis

lemma step_buildIDs_None:
  "buildIDs (fst s) b = None \<Longrightarrow> \<not> restarts b operation \<Longrightarrow>
     buildIDs (fst (step K operation s)) b = None"
  by (cases s; cases operation)
     (simp_all add: Clean_buildIDs_None StartBuild_buildIDs_None FinalizeBuild_buildIDs_None)

lemma run_buildIDs_None:
  "buildIDs (fst s) b = None \<Longrightarrow> \<forall>operation \<in> set ops. \<not> restarts b operation \<Longrightarrow>
     buildIDs (fst (run K ops s)) b = None"
  by (induction ops arbitrary: s) (simp_all add: step_buildIDs_None)

lemma BatchCreate_unknown:
  "buildIDs d (create_BuildId request) = None \<Longrightarrow>
     BatchCreate K request d w = (Inl (Status FailedPrecondition), w)"
  by (simp add: BatchCreate_def getOutputPathAndBuildState_def)

lemma BatchStat_unknown:
  "buildIDs d (stat_BuildId request) = None \<Longrightarrow>
     BatchStat K request d w = (Inl (Status FailedPrecondition), w)"
  by (simp add: BatchStat_def getOutputPathAndBuildState_def)

text \<open>
  Claim C2, as the code has it. An output base has an active session with build ID
  \<open>b1\<close>, and StartBuild is called with another build ID. A request that is refused
  (its path prefix, output base ID or digest function is not valid) returns the error
  and changes nothing. A request for that output base that is accepted and whose
  build ID is not in the build ID map removes \<open>b1\<close> from the build ID map and
  makes its own build ID lead to the object of the output base; it returns the output
  base ID, or the error of the filter when the filter fails, and the session of
  \<open>b1\<close> is closed in both cases. From then on, and after any further calls among
  which no StartBuild carries \<open>b1\<close>, BatchCreate and BatchStat with \<open>b1\<close>
  fail with FailedPrecondition. A request that is accepted and whose build ID is in
  the build ID map leaves the registry as it is: the session of \<open>b1\<close> stays
  open.
\<close>

theorem second_StartBuild_closes_first:
  assumes inv: "registry_invariant d"
    and base: "outputBaseIDs d outputBase = Some p"
    and first: "buildIDs d b1 = Some p"
    and differs: "BuildId request \<noteq> b1"
    and later: "\<forall>operation \<in> set ops. \<not> restarts b1 operation"
  shows "(\<forall>err. StartBuild_request K request = Inl err \<longrightarrow>
       StartBuild K request d w = (Inl err, [], d, w)) \<and>
    (\<forall>factory digestFn. StartBuild_request K request = Inr (outputBase, factory, digestFn) \<longrightarrow>
       (buildIDs d (BuildId request) = None \<longrightarrow>
          buildIDs (fst (snd (snd (StartBuild K request d w)))) b1 = None \<and>
          buildIDs (fst (snd (snd (StartBuild K request d w)))) (BuildId request) = Some p \<and>
          fst (StartBuild K request d w) =
            (case fst (filterMissingChildren K (rootDirectory (objects d p)) digestFn w) of
               None \<Rightarrow> Inr outputBase
             | Some err \<Rightarrow> Inl (StatusWrap err)) \<and>
          (\<forall>create w'. create_BuildId create = b1 \<longrightarrow>
             BatchCreate K create (fst (run K ops (snd (snd (StartBuild K request d w))))) w' =
               (Inl (Status FailedPrecondition), w')) \<and>
          (\<forall>stat w'. stat_BuildId stat = b1 \<longrightarrow>
             BatchStat K stat (fst (run K ops (snd (snd (StartBuild K request d w))))) w' =
               (Inl (Status FailedPrecondition), w'))) \<and>
       (buildIDs d (BuildId request) \<noteq> None \<longrightarrow>
          fst (snd (snd (StartBuild K request d w))) = d \<and>
          buildIDs (fst (snd (snd (StartBuild K request d w)))) b1 = Some p))"
proof (intro conjI allI impI)
  fix err
  assume "StartBuild_request K request = Inl err"
  then show "StartBuild K request d w = (Inl err, [], d, w)" by (simp add: StartBuild_def)
next
  fix factory digestFn
  assume request: "StartBuild_request K request = Inr (outputBase, factory, digestFn)"
    and known: "buildIDs d (BuildId request) \<noteq> None"
  then obtain q where "buildIDs d (BuildId request) = Some q" by blast
  then show same: "fst (snd (snd (StartBuild K request d w))) = d"
    by (simp add: StartBuild_def request StartBuild_locked_known split: prod.splits option.splits)
  show "buildIDs (fst (snd (snd (StartBuild K request d w)))) b1 = Some p"
    unfolding same by (rule first)
next
  fix factory digestFn
  assume request: "StartBuild_request K request = Inr (outputBase, factory, digestFn)"
    and fresh: "buildIDs d (BuildId request) = None"
  let ?L = "StartBuild_locked K (BuildId request) outputBase digestFn factory d w"
  let ?d = "fst (snd ?L)"
  note F = StartBuild_locked_reuse [OF fresh base, of K digestFn factory w]
  from invD_build [OF inv first] obtain bs where
    bs: "buildState (objects d p) = Some bs" "build_id bs = b1" by blast
  have reg: "fst (snd (snd (StartBuild K request d w))) = ?d"
    by (simp add: StartBuild_def request split: prod.splits option.splits)
  have closed: "buildIDs ?d b1 = None" using differs by (simp add: F bs)
  have opened: "buildIDs ?d (BuildId request) = Some p" by (simp add: F bs)
  have root: "rootDirectory (objects ?d (fst ?L)) = rootDirectory (objects d p)"
    by (simp add: F)
  have world: "snd (snd ?L) = w" by (simp add: F)
  show "buildIDs (fst (snd (snd (StartBuild K request d w)))) b1 = None"
    unfolding reg by (rule closed)
  show "buildIDs (fst (snd (snd (StartBuild K request d w)))) (BuildId request) = Some p"
    unfolding reg by (rule opened)
  show "fst (StartBuild K request d w) =
      (case fst (filterMissingChildren K (rootDirectory (objects d p)) digestFn w) of
         None \<Rightarrow> Inr outputBase
       | Some err \<Rightarrow> Inl (StatusWrap err))"
    using root world
    by (auto simp: StartBuild_def request split: prod.splits option.splits)
  have after: "buildIDs (fst (run K ops (snd (snd (StartBuild K request d w))))) b1 = None"
    by (rule run_buildIDs_None) (simp_all add: reg closed later)
  show "BatchCreate K create (fst (run K ops (snd (snd (StartBuild K request d w))))) w' =
      (Inl (Status FailedPrecondition), w')" if "create_BuildId create = b1" for create w'
    using that after by (simp add: BatchCreate_unknown)
  show "BatchStat K stat (fst (run K ops (snd (snd (StartBuild K request d w))))) w' =
      (Inl (Status FailedPrecondition), w')" if "stat_BuildId stat = b1" for stat w'
    using that after by (simp add: BatchStat_unknown)
qed

theorem second_StartBuild_closes_first_witness:
  "registry_invariant (fst state1) \<and>
   outputBaseIDs (fst state1) ''ob1'' = Some 1 \<and>
   buildIDs (fst state1) ''b1'' = Some 1 \<and>
   BuildId (request_for ''ob1'' ''b2'') \<noteq> ''b1'' \<and>
   buildIDs (fst state1) (BuildId (request_for ''ob1'' ''b2'')) = None \<and>
   \<not> restarts ''b1'' (FinalizeBuildOp ''b1'') \<and>
   StartBuild_request K2 (request_for ''ob1'' ''b2'') =
     Inr (''ob1'', strip_root [Name ''out'', Name ''ob1''], (''main'', 1)) \<and>
   fst (StartBuild K2 (request_for ''ob1'' ''b2'') (fst state1) (snd state1)) = Inr ''ob1'' \<and>
   BatchCreate K2
     \<lparr>create_BuildId = ''b1'', PathPrefix = [], CleanPathPrefix = False,
      Files = [], Directories = [], Symlinks = []\<rparr>
     (fst (run K2 [FinalizeBuildOp ''b1'']
        (snd (snd (StartBuild K2 (request_for ''ob1'' ''b2'') (fst state1) (snd state1))))))
     empty_world = (Inl (Status FailedPrecondition), empty_world) \<and>
   StartBuild_request K2 ((request_for ''ob1'' ''b2'')\<lparr>DigestFunction := 0\<rparr>) =
     Inl (Status InvalidArgument) \<and>
   StartBuild K2 ((request_for ''ob1'' ''b2'')\<lparr>DigestFunction := 0\<rparr>) (fst state1) (snd state1) =
     (Inl (Status InvalidArgument), [], fst state1, snd state1)"
proof -
  let ?create = "\<lparr>create_BuildId = ''b1'', PathPrefix = [], CleanPathPrefix = False,
      Files = [], Directories = [], Symlinks = []\<rparr>"
  let ?refused = "(request_for ''ob1'' ''b2'')\<lparr>DigestFunction := 0\<rparr>"
  have inv: "registry_invariant (fst state1)"
    unfolding state1_def by (rule registry_invariant_run) (simp add: registry_invariant_New)
  have base: "outputBaseIDs (fst state1) ''ob1'' = Some 1" by code_simp
  have first: "buildIDs (fst state1) ''b1'' = Some 1" by code_simp
  have request: "StartBuild_request K2 (request_for ''ob1'' ''b2'') =
      Inr (''ob1'', strip_root [Name ''out'', Name ''ob1''], (''main'', 1))"
    by (simp add: StartBuild_request_def request_for_def K2_def memory_collaborators_def
        parse_path_def to_pcomp_def NewComponent_def)
  have refused: "StartBuild_request K2 ?refused = Inl (Status InvalidArgument)"
    by (simp add: StartBuild_request_def request_for_def K2_def memory_collaborators_def
        parse_path_def to_pcomp_def NewComponent_def)
  have differs: "BuildId (request_for ''ob1'' ''b2'') \<noteq> ''b1''" by (simp add: request_for_def)
  have differs': "BuildId ?refused \<noteq> ''b1''" by (simp add: request_for_def)
  have fresh: "buildIDs (fst state1) (BuildId (request_for ''ob1'' ''b2'')) = None" by code_simp
  have later: "\<forall>operation \<in> set [FinalizeBuildOp ''b1'']. \<not> restarts ''b1'' operation" by simp
  have quiet: "\<not> restarts ''b1'' (FinalizeBuildOp ''b1'')" by simp
  have pass: "fst (filterMissingChildren K2 (rootDirectory (objects (fst state1) 1)) (''main'', 1)
      (snd state1)) = None" by code_simp
  note accepted = second_StartBuild_closes_first [OF inv base first differs later,
      of K2 "snd state1", THEN conjunct2, rule_format, OF request, THEN conjunct1, rule_format,
      OF fresh]
  from accepted have "fst (StartBuild K2 (request_for ''ob1'' ''b2'') (fst state1) (snd state1)) =
      (case fst (filterMissingChildren K2 (rootDirectory (objects (fst state1) 1)) (''main'', 1)
         (snd state1)) of None \<Rightarrow> Inr ''ob1'' | Some err \<Rightarrow> Inl (StatusWrap err))"
    by (elim conjE)
  then have result: "fst (StartBuild K2 (request_for ''ob1'' ''b2'') (fst state1) (snd state1)) =
      Inr ''ob1''" unfolding pass by simp
  from accepted have "\<forall>create w'. create_BuildId create = ''b1'' \<longrightarrow>
      BatchCreate K2 create (fst (run K2 [FinalizeBuildOp ''b1'']
        (snd (snd (StartBuild K2 (request_for ''ob1'' ''b2'') (fst state1) (snd state1)))))) w' =
      (Inl (Status FailedPrecondition), w')" by (elim conjE)
  then have create: "BatchCreate K2 ?create (fst (run K2 [FinalizeBuildOp ''b1'']
        (snd (snd (StartBuild K2 (request_for ''ob1'' ''b2'') (fst state1) (snd state1))))))
      empty_world = (Inl (Status FailedPrecondition), empty_world)" by simp
  note refusal = second_StartBuild_closes_first [OF inv base first differs' later,
      of K2 "snd state1", THEN conjunct1, rule_format, OF refused]
  show ?thesis
    by (intro conjI inv base first differs fresh quiet request result create refused refusal)
qed

text \<open>
  The claim as it is written fails when the build ID of the second StartBuild is
  active on another output base: StartBuild then finds that build ID in the map and
  leaves the session of the first build ID open. Here \<open>b1\<close> is active on
  \<open>ob1\<close> and \<open>b2\<close> on \<open>ob2\<close>; after a StartBuild on \<open>ob1\<close> with
  \<open>b2\<close>, which returns no error, BatchStat with \<open>b1\<close> succeeds.
\<close>

theorem second_StartBuild_counterexample:
  "outputBaseIDs (fst state2) ''ob1'' = Some 1 \<and>
   buildIDs (fst state2) ''b1'' = Some 1 \<and>
   fst (StartBuild K2 (request_for ''ob1'' ''b2'') (fst state2) (snd state2)) = Inr ''ob1'' \<and>
   fst (BatchStat K2
          \<lparr>stat_BuildId = ''b1'', Paths = [], FollowSymlinks = False, IncludeFileDigest = False\<rparr>
          (fst (snd (snd (StartBuild K2 (request_for ''ob1'' ''b2'') (fst state2) (snd state2)))))
          (snd (snd (snd (StartBuild K2 (request_for ''ob1'' ''b2'') (fst state2) (snd state2))))))
     = Inr []"
  by code_simp

section \<open>BatchStat and BatchCreate\<close>

subsection \<open>One response per path\<close>

lemma stat_paths_responses:
  assumes "stat_paths K root bs request statPaths responses0 w = (Inr responses, w')"
  shows "length responses = length responses0 + length statPaths \<and>
    take (length responses0) responses = responses0 \<and>
    (\<exists>ws. length ws = Suc (length statPaths) \<and> ws ! 0 = w \<and> ws ! length statPaths = w' \<and>
       (\<forall>i < length statPaths. \<exists>b. bs = Some b \<and>
          stat_path K root b request (statPaths ! i) (ws ! i) =
            (Inr (responses ! (length responses0 + i)), ws ! Suc i)))"
  using assms
proof (induction statPaths arbitrary: responses0 w)
  case Nil
  then show ?case by (auto intro: exI [of _ "[w]"])
next
  case (Cons statPath statPaths)
  from Cons.prems obtain b response w1 where
    b: "bs = Some b" and
    one: "stat_path K root b request statPath w = (Inr response, w1)" and
    rest: "stat_paths K root bs request statPaths (responses0 @ [response]) w1 = (Inr responses, w')"
    by (auto split: option.splits sum.splits prod.splits)
  from Cons.IH [OF rest] obtain ws where
    len: "length responses = length (responses0 @ [response]) + length statPaths" and
    pre: "take (length (responses0 @ [response])) responses = responses0 @ [response]" and
    ws: "length ws = Suc (length statPaths)" "ws ! 0 = w1" "ws ! length statPaths = w'" and
    each: "\<forall>i < length statPaths. \<exists>b. bs = Some b \<and>
          stat_path K root b request (statPaths ! i) (ws ! i) =
            (Inr (responses ! (length (responses0 @ [response]) + i)), ws ! Suc i)"
    by blast
  have pre0: "take (length responses0) responses = responses0"
    using pre by (metis length_append_singleton butlast_snoc butlast_take diff_Suc_1 le_add1 len)
  have at: "responses ! length responses0 = response"
    using pre len
    by (metis length_append_singleton lessI nth_append_length nth_take)
  have "\<forall>i < length (statPath # statPaths). \<exists>b. bs = Some b \<and>
          stat_path K root b request ((statPath # statPaths) ! i) ((w # ws) ! i) =
            (Inr (responses ! (length responses0 + i)), (w # ws) ! Suc i)"
  proof (intro allI impI)
    fix i assume i: "i < length (statPath # statPaths)"
    show "\<exists>b. bs = Some b \<and>
          stat_path K root b request ((statPath # statPaths) ! i) ((w # ws) ! i) =
            (Inr (responses ! (length responses0 + i)), (w # ws) ! Suc i)"
    proof (cases i)
      case 0
      then show ?thesis using b one at ws by simp
    next
      case (Suc j)
      then have "j < length statPaths" using i by simp
      with each Suc show ?thesis by simp
    qed
  qed
  moreover have "length (w # ws) = Suc (length (statPath # statPaths))" using ws by simp
  moreover have "(w # ws) ! 0 = w" by simp
  moreover have "(w # ws) ! length (statPath # statPaths) = w'" using ws by simp
  ultimately show ?case using len pre0 by (intro conjI exI [of _ "w # ws"]) simp_all
qed

lemma stat_path_ENOENT:
  "fst (Resolve_stat K (scopeWalkerFactory b) statPath (new_statWalker root b request) w) =
     Inl (Errno ENOENT) \<Longrightarrow>
   fst (stat_path K root b request statPath w) = Inr None"
  by (auto simp: stat_path_def split: prod.splits sum.splits)

text \<open>
  Claim C7. When BatchStat returns a response, the response holds one result for
  each path of the request, in the order of the request: the result at position
  \<open>i\<close> is that of the path at position \<open>i\<close>, resolved in the state that the
  paths before it have left. A path whose resolution ends with ENOENT gives the
  empty result, not an error.
\<close>

theorem BatchStat_one_result_per_path:
  assumes "BatchStat K request d w = (Inr responses, w')"
  shows "length responses = length (Paths request) \<and>
    (\<exists>p ws. buildIDs d (stat_BuildId request) = Some p \<and>
       length ws = Suc (length (Paths request)) \<and> ws ! 0 = w \<and>
       ws ! length (Paths request) = w' \<and>
       (\<forall>i < length (Paths request). \<exists>b. buildState (objects d p) = Some b \<and>
          stat_path K (rootDirectory (objects d p)) b request (Paths request ! i) (ws ! i) =
            (Inr (responses ! i), ws ! Suc i))) \<and>
    (\<forall>root b statPath w0.
       fst (Resolve_stat K (scopeWalkerFactory b) statPath (new_statWalker root b request) w0) =
         Inl (Errno ENOENT) \<longrightarrow>
       fst (stat_path K root b request statPath w0) = Inr None)"
proof -
  from assms obtain p where
    p: "buildIDs d (stat_BuildId request) = Some p" and
    run: "stat_paths K (rootDirectory (objects d p)) (buildState (objects d p)) request
            (Paths request) [] w = (Inr responses, w')"
    by (auto simp: BatchStat_def getOutputPathAndBuildState_def split: option.splits)
  from stat_paths_responses [OF run] p show ?thesis
    by (auto simp: stat_path_ENOENT)
qed

theorem BatchStat_one_result_per_path_witness:
  "fst (BatchStat K2 stat_request (fst state1) (snd state1)) =
     Inr [None, Some (FS_Directory (Some 0)), Some (FS_External (Some ''/../x''))] \<and>
   length [None, Some (FS_Directory (Some 0)), Some (FS_External (Some ''/../x''))] =
     length (Paths stat_request)"
proof -
  have r: "fst (BatchStat K2 stat_request (fst state1) (snd state1)) =
     Inr [None, Some (FS_Directory (Some 0)), Some (FS_External (Some ''/../x''))]"
    by code_simp
  have h: "BatchStat K2 stat_request (fst state1) (snd state1) =
     (Inr [None, Some (FS_Directory (Some 0)), Some (FS_External (Some ''/../x''))],
      snd (BatchStat K2 stat_request (fst state1) (snd state1)))"
    using r by (metis prod.collapse)
  show ?thesis
    using r BatchStat_one_result_per_path [OF h] by simp
qed

subsection \<open>Moving above the root of the output path\<close>

lemma resolve_stat_void:
  "resolve_stat K factory n False cs cw tr w = (Inr (cw, tr @ void_events cs), w)"
  by (induction cs arbitrary: tr rule: void_events.induct) simp_all

lemma PopSingle_root: "snd st = [] \<Longrightarrow> PopSingle st = None"
  by (simp add: PopSingle_def)

text \<open>
  Claim C6. A resolution moves above the root when OnUp is called on a stack that
  holds the root alone. There the two creating walkers of BatchCreate fail with
  InvalidArgument, and so does the resolution of the path. The stat walker of
  BatchStat does not fail: it marks the result as external and hands the rest of the
  path to the void walker, so that the resolution succeeds whatever follows and the
  path that was built is reported as the next path. For a relative path that starts
  with a double dot this is the outcome of BatchStat and of BatchCreate themselves.
\<close>

theorem moving_above_root:
  assumes "snd st = []" and "snd (stack cw) = []"
  shows "directoryCreatingComponentWalker_OnUp st = Inl (Status InvalidArgument) \<and>
    parentDirectoryCreatingComponentWalker_OnUp (terminalName, st) = Inl (Status InvalidArgument) \<and>
    statWalker_OnUp cw = (False, cw\<lparr>fileStatus := FS_External None\<rparr>) \<and>
    resolve_directoryCreating K (Up # cs) st w = (Inl (Status InvalidArgument), w) \<and>
    resolve_parentDirectoryCreating K (Up # cs) (terminalName, st) w =
      (Inl (Status InvalidArgument), w) \<and>
    resolve_stat K factory n True (Up # cs) cw tr w =
      (Inr (cw\<lparr>fileStatus := FS_External None\<rparr>, tr @ OnUpEvent True # void_events cs), w) \<and>
    (parse_path path = Inr \<lparr>absolute = False, components = Up # cs\<rparr> \<longrightarrow>
       stat_path K root b request path w =
         (Inr (Some (FS_External (Some (Builder_String K
            (OnScopeEvent False (Up # cs) # OnUpEvent True # void_events cs))))), w) \<and>
       Resolve_directoryCreating K path (NewNonEmptyStack root) w =
         (Inl (Status InvalidArgument), w) \<and>
       createChild K (NewNonEmptyStack root) path node w = (Some (Status InvalidArgument), w))"
proof -
  have up1: "directoryCreatingComponentWalker_OnUp st = Inl (Status InvalidArgument)"
    using assms(1) by (simp add: directoryCreatingComponentWalker_OnUp_def PopSingle_root)
  have up2: "parentDirectoryCreatingComponentWalker_OnUp (terminalName, st) =
      Inl (Status InvalidArgument)"
    using assms(1) by (simp add: parentDirectoryCreatingComponentWalker_OnUp_def PopSingle_root)
  have up3: "statWalker_OnUp cw = (False, cw\<lparr>fileStatus := FS_External None\<rparr>)"
    using assms(2) by (simp add: statWalker_OnUp_def PopSingle_root)
  have top: "stat_path K root b request path w =
         (Inr (Some (FS_External (Some (Builder_String K
            (OnScopeEvent False (Up # cs) # OnUpEvent True # void_events cs))))), w) \<and>
       Resolve_directoryCreating K path (NewNonEmptyStack root) w =
         (Inl (Status InvalidArgument), w) \<and>
       createChild K (NewNonEmptyStack root) path node w = (Some (Status InvalidArgument), w)"
    if "parse_path path = Inr \<lparr>absolute = False, components = Up # cs\<rparr>"
    using that
    by (simp add: stat_path_def Resolve_stat_def push_target_def stat_OnScope_def
        new_statWalker_def statWalker_OnScope_def statWalker_OnUp_def NewNonEmptyStack_def PopSingle_def
        resolve_stat_void Resolve_directoryCreating_def directoryCreatingComponentWalker_OnUp_def
        createChild_def Resolve_parentDirectoryCreating_def
        parentDirectoryCreatingComponentWalker_OnUp_def)
  show ?thesis
    using up1 up2 up3 top by (simp add: resolve_stat_void)
qed

theorem moving_above_root_witness:
  "snd (NewNonEmptyStack (1::nat)) = [] \<and>
   snd (stack (new_statWalker 1 buildState1 stat_request)) = [] \<and>
   parse_path ''../x'' = Inr \<lparr>absolute = False, components = Up # [Name ''x'']\<rparr> \<and>
   stat_path K2 1 buildState1 stat_request ''../x'' empty_world =
     (Inr (Some (FS_External (Some ''/../x''))), empty_world) \<and>
   createChild K2 (NewNonEmptyStack 1) ''../x'' (FromLeaf 7) empty_world =
     (Some (Status InvalidArgument), empty_world)"
proof -
  have s1: "snd (NewNonEmptyStack (1::nat)) = []" by (simp add: NewNonEmptyStack_def)
  have s2: "snd (stack (new_statWalker 1 buildState1 stat_request)) = []"
    by (simp add: new_statWalker_def NewNonEmptyStack_def)
  have p: "parse_path ''../x'' = Inr \<lparr>absolute = False, components = Up # [Name ''x'']\<rparr>"
    by (simp add: parse_path_def to_pcomp_def)
  have r: "Builder_String K2 (OnScopeEvent False (Up # [Name ''x'']) # OnUpEvent True #
      void_events [Name ''x'']) = ''/../x''"
    by (simp add: K2_def memory_collaborators_def)
  show ?thesis
    using s1 s2 p r
      moving_above_root [OF s1 s2, of None K2 "[Name ''x'']" empty_world "\<lambda>cs. None" 0 "[]"
        "''../x''" 1 buildState1 stat_request "FromLeaf 7"]
    by simp
qed

subsection \<open>A directory that is too large\<close>

lemma create_directories_append:
  "create_directories K m st bs (xs @ ys) w =
     (case create_directories K m st bs xs w of
        (Some err, w') \<Rightarrow> (Some err, w')
      | (None, w') \<Rightarrow> create_directories K m st bs ys w')"
  by (induction xs arbitrary: w) (auto split: option.splits sum.splits prod.splits)

lemma create_directories_oversized:
  assumes "NewDigestFromProto K (digestFunction b) (TreeDigest entry) = Inr treeDigest"
    and "sizeBytes treeDigest > m"
  shows "create_directories K m st (Some b) (before @ entry # after) w =
     (case create_directories K m st (Some b) before w of
        (Some err, w') \<Rightarrow> (Some err, w')
      | (None, w') \<Rightarrow> (Some (Status InvalidArgument), w'))"
  using assms by (simp add: create_directories_append split: prod.splits option.splits)

text \<open>
  Claim C1, as the code has it. A BatchCreate request with a directory entry whose
  tree digest is larger than the maximum never succeeds. The entries are processed in
  order (the path prefix, its cleaning, the files, the directories) and the call
  stops at the entry that is too large: when all that comes before it succeeds, the
  call fails with InvalidArgument, and the tree is in the state that the request
  would have left without that entry, the directories after it and the symbolic
  links. What comes before the entry is created and stays.
\<close>

theorem BatchCreate_oversized_directory:
  assumes "buildIDs d (create_BuildId request) = Some p"
    and "buildState (objects d p) = Some b"
    and "Directories request = before @ entry # after"
    and "NewDigestFromProto K (digestFunction b) (TreeDigest entry) = Inr treeDigest"
    and "sizeBytes treeDigest > maximumTreeSizeBytes d"
  shows "(\<exists>err. fst (BatchCreate K request d w) = Inl err) \<and>
    (BatchCreate K (request\<lparr>Directories := before, Symlinks := []\<rparr>) d w = (Inr (), w') \<longrightarrow>
       BatchCreate K request d w = (Inl (Status InvalidArgument), w'))"
  using assms(1,2,3) create_directories_oversized [OF assms(4,5), of _ before after]
  by (auto simp: BatchCreate_def getOutputPathAndBuildState_def
      split: option.splits sum.splits prod.splits)

theorem BatchCreate_oversized_directory_witness:
  "buildIDs (fst state1) (create_BuildId oversized_request) = Some 1 \<and>
   buildState (objects (fst state1) 1) = Some buildState1 \<and>
   Directories oversized_request = [] @ \<lparr>directory_Path = ''d'', TreeDigest = (''h2'', 500)\<rparr> # [] \<and>
   sizeBytes \<lparr>digest_function_of = (''main'', 1), hash = ''h2'', sizeBytes = 500\<rparr>
     > maximumTreeSizeBytes (fst state1) \<and>
   (\<exists>err. fst (BatchCreate K2 oversized_request (fst state1) (snd state1)) = Inl err)"
proof -
  have h1: "buildIDs (fst state1) (create_BuildId oversized_request) = Some 1" by code_simp
  have h2: "buildState (objects (fst state1) 1) = Some buildState1"
    by (simp add: state1_def StartBuild_def StartBuild_request_def request_for_def K2_def
        memory_collaborators_def parse_path_def to_pcomp_def NewComponent_def
        StartBuild_locked_def NewRemoteOutputServiceDirectory_def Let_def buildState1_def
        set_buildState_def set_next_def set_previous_def
        split: prod.splits option.splits)
  have h3: "Directories oversized_request =
      [] @ \<lparr>directory_Path = ''d'', TreeDigest = (''h2'', 500)\<rparr> # []"
    by (simp add: oversized_request_def)
  have h4: "NewDigestFromProto K2 (digestFunction buildState1)
      (TreeDigest \<lparr>directory_Path = ''d'', TreeDigest = (''h2'', 500)\<rparr>) =
      Inr \<lparr>digest_function_of = (''main'', 1), hash = ''h2'', sizeBytes = 500\<rparr>"
    by (simp add: K2_def memory_collaborators_def buildState1_def)
  have h5: "sizeBytes \<lparr>digest_function_of = (''main'', 1), hash = ''h2'', sizeBytes = 500\<rparr>
     > maximumTreeSizeBytes (fst state1)"
    by code_simp
  show ?thesis
    using h1 h2 h3 h5 BatchCreate_oversized_directory [OF h1 h2 h3 h4 h5, of "snd state1"]
    by simp
qed

text \<open>
  The claim as it is written fails: the call below fails with InvalidArgument on its
  directory entry of 500 bytes, the maximum being 100, but by then the path prefix
  and the file of the request have been created. The root of the output path, empty
  before the call, holds the directory of the prefix after it, and that directory
  holds the file.
\<close>

theorem BatchCreate_oversized_counterexample:
  "rootDirectory (objects (fst state1) 1) = 1 \<and>
   children (snd state1) 1 = [] \<and>
   fst (BatchCreate K2 oversized_request (fst state1) (snd state1)) = Inl (Status InvalidArgument) \<and>
   children (snd (BatchCreate K2 oversized_request (fst state1) (snd state1))) 1 =
     [(''pre'', ChildDirectory 2)] \<and>
   children (snd (BatchCreate K2 oversized_request (fst state1) (snd state1))) 2 =
     [(''f'', ChildLeaf 3)]"
  by code_simp

section \<open>The missing-blob filter\<close>

subsection \<open>The events are the calls that the filter makes\<close>

lemma replay_append [simp]: "replay K (a @ b) w = replay K b (replay K a w)"
  by (induction K a w rule: replay.induct) simp_all

lemma performed_append [simp]:
  "performed K (a @ b) w = (performed K a w \<and> performed K b (replay K a w))"
  by (induction K a w rule: performed.induct) simp_all

lemma removers_succeed_append [simp]:
  "removers_succeed K (a @ b) w =
     (removers_succeed K a w \<and> removers_succeed K b (replay K a w))"
  by (induction K a w rule: removers_succeed.induct) simp_all

lemma performs_refl: "performs K err tr w tr w"
  unfolding performs_def by (rule exI [of _ "[]"]) simp

lemma performs_weaken: "performs K err tr w tr' w' \<Longrightarrow> performs K (Some e) tr w tr' w'"
  unfolding performs_def by auto

lemma performs_trans:
  assumes one: "performs K e1 tr w tr1 w1" and two: "performs K e2 tr1 w1 tr2 w2"
    and err: "e2 = None \<Longrightarrow> e1 = None"
  shows "performs K e2 tr w tr2 w2"
proof -
  from one obtain a where a: "tr1 = tr @ a" "w1 = replay K a w" "performed K a w"
    "e1 = None \<longrightarrow> removers_succeed K a w" unfolding performs_def by blast
  from two obtain b where b: "tr2 = tr1 @ b" "w2 = replay K b w1" "performed K b w1"
    "e2 = None \<longrightarrow> removers_succeed K b w1" unfolding performs_def by blast
  show ?thesis unfolding performs_def
  proof (intro exI [of _ "a @ b"] conjI impI)
    show "tr2 = tr @ a @ b" by (simp add: a(1) b(1))
    show "w2 = replay K (a @ b) w" by (simp add: a(2) b(2))
    show "performed K (a @ b) w" using a(3) b(3) by (simp add: a(2))
    show "removers_succeed K (a @ b) w" if "e2 = None"
      using that err a(4) b(4) by (simp add: a(2))
  qed
qed

lemma performs_remover:
  assumes "ChildRemover K r w = (e, w1)" and "err = None \<Longrightarrow> e = None"
  shows "performs K err tr w (tr @ [ChildRemoverCall r]) w1"
  unfolding performs_def using assms by (intro exI [of _ "[ChildRemoverCall r]"]) simp

lemma performs_FindMissing:
  assumes "FindMissing K digests w = (answer, w1)"
  shows "performs K err tr w (tr @ [FindMissingCall digests answer]) w1"
  unfolding performs_def using assms by (intro exI [of _ "[FindMissingCall digests answer]"]) simp

lemma call_removers_performs:
  "call_removers K rs tr w = (err, tr', w') \<Longrightarrow> performs K err tr w tr' w'"
proof (induction rs arbitrary: tr w)
  case Nil
  then show ?case by (simp add: performs_refl)
next
  case (Cons r rs)
  obtain e w1 where cr: "ChildRemover K r w = (e, w1)" by (cases "ChildRemover K r w")
  show ?case
  proof (cases e)
    case (Some x)
    with cr Cons.prems have r: "err = Some (StatusWrap x)" "tr' = tr @ [ChildRemoverCall r]"
      "w' = w1" by simp_all
    show ?thesis unfolding r(2,3) by (rule performs_remover [OF cr]) (simp add: r(1))
  next
    case None
    with cr Cons.prems have "call_removers K rs (tr @ [ChildRemoverCall r]) w1 = (err, tr', w')"
      by simp
    then have two: "performs K err (tr @ [ChildRemoverCall r]) w1 tr' w'" by (rule Cons.IH)
    have one: "performs K None tr w (tr @ [ChildRemoverCall r]) w1"
      by (rule performs_remover [OF cr]) (simp add: None)
    show ?thesis by (rule performs_trans [OF one two]) simp
  qed
qed

lemma remove_missing_performs:
  "remove_missing K q ms tr w = (err, tr', w') \<Longrightarrow> performs K err tr w tr' w'"
proof (induction ms arbitrary: tr w)
  case Nil
  then show ?case by (simp add: performs_refl)
next
  case (Cons m ms)
  obtain e tr1 w1 where c: "call_removers K (queue_lookup q m) tr w = (e, tr1, w1)"
    by (cases "call_removers K (queue_lookup q m) tr w") auto
  note one = call_removers_performs [OF c]
  show ?case
  proof (cases e)
    case (Some x)
    with c Cons.prems have "err = e" "tr' = tr1" "w' = w1" by simp_all
    with one show ?thesis by simp
  next
    case None
    with c Cons.prems have "remove_missing K q ms tr1 w1 = (err, tr', w')" by simp
    then have two: "performs K err tr1 w1 tr' w'" by (rule Cons.IH)
    show ?thesis by (rule performs_trans [OF one two]) (simp add: None)
  qed
qed

lemma findMissingAndRemove_performs:
  assumes "findMissingAndRemove K q tr w = (err, tr', w')"
  shows "performs K err tr w tr' w'"
proof -
  obtain answer w1 where fm: "FindMissing K (set (map fst q)) w = (answer, w1)"
    by (cases "FindMissing K (set (map fst q)) w")
  show ?thesis
  proof (cases answer)
    case (Inl e)
    with fm assms have "tr' = tr @ [FindMissingCall (set (map fst q)) answer]" "w' = w1"
      by (simp_all add: findMissingAndRemove_def)
    then show ?thesis using performs_FindMissing [OF fm, of err tr] by simp
  next
    case (Inr missing)
    with fm assms have "remove_missing K q missing
        (tr @ [FindMissingCall (set (map fst q)) answer]) w1 = (err, tr', w')"
      by (simp add: findMissingAndRemove_def)
    then have two: "performs K err (tr @ [FindMissingCall (set (map fst q)) answer]) w1 tr' w'"
      by (rule remove_missing_performs)
    show ?thesis by (rule performs_trans [OF performs_FindMissing [OF fm, of None tr] two]) simp
  qed
qed

lemma enqueue_digests_performs:
  "enqueue_digests K r ds q tr w = (err, q', tr', w') \<Longrightarrow> performs K err tr w tr' w'"
proof (induction ds arbitrary: q tr w)
  case Nil
  then show ?case by (simp add: performs_refl)
next
  case (Cons x ds)
  show ?case
  proof (cases "length q \<ge> RecommendedFindMissingDigestsCount K")
    case False
    with Cons.prems have "enqueue_digests K r ds (queue_append x r q) tr w = (err, q', tr', w')"
      by simp
    then show ?thesis by (rule Cons.IH)
  next
    case True
    obtain e tr1 w1 where fm: "findMissingAndRemove K q tr w = (e, tr1, w1)"
      by (cases "findMissingAndRemove K q tr w") auto
    note one = findMissingAndRemove_performs [OF fm]
    show ?thesis
    proof (cases e)
      case (Some y)
      with True fm Cons.prems have "err = e" "tr' = tr1" "w' = w1" by simp_all
      with one show ?thesis by simp
    next
      case None
      with True fm Cons.prems have
        "enqueue_digests K r ds (queue_append x r []) tr1 w1 = (err, q', tr', w')" by simp
      then have two: "performs K err tr1 w1 tr' w'" by (rule Cons.IH)
      show ?thesis by (rule performs_trans [OF one two]) (simp add: None)
    qed
  qed
qed

lemma remove_node_performs:
  assumes "remove_node K r q tr w = (go, err, q', tr', w')"
  shows "performs K err tr w tr' w'"
proof -
  obtain e w1 where cr: "ChildRemover K r w = (e, w1)" by (cases "ChildRemover K r w")
  from assms cr have r: "tr' = tr @ [ChildRemoverCall r]" "w' = w1" "err = None \<longrightarrow> e = None"
    by (auto simp: remove_node_def split: option.splits)
  show ?thesis unfolding r(1,2) by (rule performs_remover [OF cr]) (simp add: r(3))
qed

lemma filter_digests_performs:
  assumes "filter_digests K f r ds q tr w = (go, err, q', tr', w')"
  shows "performs K err tr w tr' w'"
proof (cases "find (\<lambda>x. \<not> UsesDigestFunction x f) ds")
  case (Some x)
  with assms have "remove_node K r q tr w = (go, err, q', tr', w')"
    by (simp add: filter_digests_def)
  then show ?thesis by (rule remove_node_performs)
next
  case None
  obtain e q1 tr1 w1 where en: "enqueue_digests K r ds q tr w = (e, q1, tr1, w1)"
    by (cases "enqueue_digests K r ds q tr w") auto
  with None assms have "err = e" "tr' = tr1" "w' = w1"
    by (auto simp: filter_digests_def split: option.splits)
  with enqueue_digests_performs [OF en] show ?thesis by simp
qed

lemma childFilter_performs:
  assumes "childFilter K f node q tr w = (go, err, q', tr', w')"
  shows "performs K err tr w tr' w'"
proof (cases node)
  case (LeafNode r ds)
  with assms show ?thesis using filter_digests_performs by simp
next
  case (DirectoryNode r result)
  show ?thesis
  proof (cases result)
    case (Inr ds)
    with DirectoryNode assms show ?thesis using filter_digests_performs by simp
  next
    case (Inl e)
    show ?thesis
    proof (cases "status_Code e = NotFound")
      case True
      with DirectoryNode Inl assms have "remove_node K r q tr w = (go, err, q', tr', w')" by simp
      then show ?thesis by (rule remove_node_performs)
    next
      case False
      with DirectoryNode Inl assms have "err = Some e" "tr' = tr" "w' = w" by simp_all
      then show ?thesis by (simp add: performs_refl)
    qed
  qed
qed

lemma childFilter_continues:
  assumes "childFilter K f node q tr w = (True, err, q', tr', w')"
  shows "err = None"
proof -
  have rn: "remove_node K r q tr w = (True, err, q', tr', w') \<Longrightarrow> err = None" for r
    by (auto simp: remove_node_def split: option.splits prod.splits)
  have fd: "filter_digests K f r ds q tr w = (True, err, q', tr', w') \<Longrightarrow> err = None" for r ds
    by (auto simp: filter_digests_def remove_node_def split: option.splits prod.splits)
  show ?thesis
  proof (cases node)
    case (LeafNode r ds)
    with assms fd show ?thesis by simp
  next
    case (DirectoryNode r result)
    with assms fd rn show ?thesis by (cases result) (auto split: if_splits)
  qed
qed

lemma filter_nodes_performs:
  "filter_nodes K f nodes q tr w = (err, q', tr', w') \<Longrightarrow> performs K err tr w tr' w'"
proof (induction nodes arbitrary: q tr w)
  case Nil
  then show ?case by (simp add: performs_refl)
next
  case (Cons node nodes)
  obtain go e q1 tr1 w1 where c: "childFilter K f node q tr w = (go, e, q1, tr1, w1)"
    by (cases "childFilter K f node q tr w") auto
  note one = childFilter_performs [OF c]
  show ?case
  proof (cases go)
    case False
    with c Cons.prems have "err = e" "tr' = tr1" "w' = w1" by simp_all
    with one show ?thesis by simp
  next
    case True
    with c have "childFilter K f node q tr w = (True, e, q1, tr1, w1)" by simp
    then have none: "e = None" by (rule childFilter_continues)
    from True c Cons.prems have "filter_nodes K f nodes q1 tr1 w1 = (err, q', tr', w')" by simp
    then have two: "performs K err tr1 w1 tr' w'" by (rule Cons.IH)
    show ?thesis by (rule performs_trans [OF one two]) (simp add: none)
  qed
qed

lemma filterMissingChildren_performs:
  assumes "filterMissingChildren K root f w = (err, tr, w')"
  shows "w' = replay K tr w \<and> performed K tr w \<and> (err = None \<longrightarrow> removers_succeed K tr w)"
proof -
  obtain nodes e where fc: "FilterChildren K root w = (nodes, e)" by (metis prod.collapse)
  obtain savedErr q tr0 w1 where fn: "filter_nodes K f nodes [] [] w = (savedErr, q, tr0, w1)"
    by (cases "filter_nodes K f nodes [] [] w") auto
  note one = filter_nodes_performs [OF fn]
  have "performs K err [] w tr w'"
  proof (cases "e = None \<and> savedErr = None \<and> length q > 0")
    case True
    with assms have "findMissingAndRemove K q tr0 w1 = (err, tr, w')"
      by (simp add: filterMissingChildren_def fc fn)
    then have two: "performs K err tr0 w1 tr w'" by (rule findMissingAndRemove_performs)
    show ?thesis by (rule performs_trans [OF one two]) (simp add: True)
  next
    case False
    with assms have same: "tr = tr0" "w' = w1" and err: "err = None \<longrightarrow> savedErr = None"
      by (auto simp: filterMissingChildren_def fc fn split: option.splits if_splits)
    show ?thesis
    proof (cases err)
      case None
      with err one same show ?thesis by simp
    next
      case (Some x)
      with performs_weaken [OF one, of x] same show ?thesis by simp
    qed
  qed
  then show ?thesis by (simp add: performs_def)
qed

subsection \<open>The queue\<close>

lemma map_of_queue_append:
  "map_of (queue_append k r q) = (map_of q)(k \<mapsto> queue_lookup q k @ [r])"
  by (induction k r q rule: queue_append.induct) (auto simp: queue_lookup_def fun_eq_iff)

lemma queue_lookup_append:
  "queue_lookup (queue_append k r q) x = (if x = k then queue_lookup q k @ [r] else queue_lookup q x)"
  by (simp add: queue_lookup_def map_of_queue_append)

lemma keys_queue_append: "set (map fst (queue_append k r q)) = insert k (set (map fst q))"
  by (induction k r q rule: queue_append.induct) auto

lemma length_queue_append:
  "length (queue_append k r q) = (if k \<in> set (map fst q) then length q else Suc (length q))"
  by (induction k r q rule: queue_append.induct) (auto simp: image_iff)

lemma queue_lookup_not_key: "x \<notin> set (map fst q) \<Longrightarrow> queue_lookup q x = []"
  by (simp add: queue_lookup_def map_of_eq_None_iff [THEN iffD2] image_iff split: option.splits)

subsection \<open>What the functions add to the events\<close>

lemma call_removers_events:
  "call_removers K rs tr w = (err, tr', w') \<Longrightarrow>
     \<exists>rs'. tr' = tr @ map ChildRemoverCall rs' \<and> set rs' \<subseteq> set rs \<and> (err = None \<longrightarrow> rs' = rs)"
proof (induction rs arbitrary: tr w)
  case Nil
  then show ?case by simp
next
  case (Cons r rs)
  show ?case
  proof (cases "ChildRemover K r w")
    case (Pair e w1)
    show ?thesis
    proof (cases e)
      case (Some x)
      with Pair Cons.prems have "tr' = tr @ map ChildRemoverCall [r]" "err \<noteq> None" by auto
      then show ?thesis by (intro exI [of _ "[r]"]) auto
    next
      case None
      with Pair Cons.prems have "call_removers K rs (tr @ [ChildRemoverCall r]) w1 = (err, tr', w')"
        by simp
      from Cons.IH [OF this] obtain rs' where
        "tr' = (tr @ [ChildRemoverCall r]) @ map ChildRemoverCall rs'" "set rs' \<subseteq> set rs"
        "err = None \<longrightarrow> rs' = rs" by blast
      then show ?thesis by (intro exI [of _ "r # rs'"]) auto
    qed
  qed
qed

lemma remove_missing_events:
  "remove_missing K q ms tr w = (err, tr', w') \<Longrightarrow>
     \<exists>rs. tr' = tr @ map ChildRemoverCall rs \<and>
       set rs \<subseteq> (\<Union>m \<in> set ms. set (queue_lookup q m)) \<and>
       (err = None \<longrightarrow> set rs = (\<Union>m \<in> set ms. set (queue_lookup q m)))"
proof (induction ms arbitrary: tr w)
  case Nil
  then show ?case by simp
next
  case (Cons m ms)
  obtain e tr1 w1 where c: "call_removers K (queue_lookup q m) tr w = (e, tr1, w1)"
    by (metis prod_cases3)
  from call_removers_events [OF c] obtain rs1 where
    rs1: "tr1 = tr @ map ChildRemoverCall rs1" "set rs1 \<subseteq> set (queue_lookup q m)"
      "e = None \<longrightarrow> rs1 = queue_lookup q m" by blast
  show ?case
  proof (cases e)
    case (Some x)
    with c Cons.prems have "tr' = tr1" "err \<noteq> None" by auto
    with rs1 show ?thesis by (intro exI [of _ rs1]) auto
  next
    case None
    with c Cons.prems have "remove_missing K q ms tr1 w1 = (err, tr', w')" by simp
    from Cons.IH [OF this] obtain rs2 where
      rs2: "tr' = tr1 @ map ChildRemoverCall rs2"
        "set rs2 \<subseteq> (\<Union>m \<in> set ms. set (queue_lookup q m))"
        "err = None \<longrightarrow> set rs2 = (\<Union>m \<in> set ms. set (queue_lookup q m))" by blast
    show ?thesis using rs1 rs2 None by (intro exI [of _ "rs1 @ rs2"]) auto
  qed
qed

text \<open>findMissingAndRemove: one FindMissing call on the keys of the queue, then removers.\<close>

lemma findMissingAndRemove_events:
  assumes "findMissingAndRemove K q tr w = (err, tr', w')"
  shows "\<exists>answer rs. tr' = tr @ FindMissingCall (set (map fst q)) answer # map ChildRemoverCall rs \<and>
      (err = None \<longrightarrow> (\<exists>ms. answer = Inr ms \<and> set rs = (\<Union>m \<in> set ms. set (queue_lookup q m))))"
proof (cases "FindMissing K (set (map fst q)) w")
  case (Pair answer w1)
  show ?thesis
  proof (cases answer)
    case (Inl e)
    with Pair assms have "tr' = tr @ [FindMissingCall (set (map fst q)) (Inl e)]" "err \<noteq> None"
      by (auto simp: findMissingAndRemove_def)
    then show ?thesis by (intro exI [of _ "Inl e"] exI [of _ "[]"]) simp
  next
    case (Inr ms)
    with Pair assms have
      "remove_missing K q ms (tr @ [FindMissingCall (set (map fst q)) (Inr ms)]) w1 = (err, tr', w')"
      by (simp add: findMissingAndRemove_def)
    from remove_missing_events [OF this] obtain rs where
      "tr' = (tr @ [FindMissingCall (set (map fst q)) (Inr ms)]) @ map ChildRemoverCall rs"
      "err = None \<longrightarrow> set rs = (\<Union>m \<in> set ms. set (queue_lookup q m))" by blast
    then show ?thesis by (intro exI [of _ "Inr ms"] exI [of _ rs]) auto
  qed
qed


lemma submits_only_removers [simp]: "submits_only f (map ChildRemoverCall rs)"
  by (auto simp: submits_only_def)

lemma submits_only_call [simp]:
  "submits_only f (FindMissingCall digests answer # tr) =
     ((\<forall>x \<in> digests. UsesDigestFunction x f) \<and> submits_only f tr)"
  by (auto simp: submits_only_def)

lemma submits_only_remover [simp]:
  "submits_only f (ChildRemoverCall r # tr) = submits_only f tr"
  by (auto simp: submits_only_def)

lemma submits_only_Nil [simp]: "submits_only f []"
  by (simp add: submits_only_def)

lemma removed_append [simp]: "removed (tr @ tr') = removed tr \<union> removed tr'"
  by (auto simp: removed_def)

lemma removed_removers [simp]: "removed (map ChildRemoverCall rs) = set rs"
  by (auto simp: removed_def)

lemma removed_call [simp]: "removed (FindMissingCall digests answer # tr) = removed tr"
  by (auto simp: removed_def)

lemma removed_remover [simp]: "removed (ChildRemoverCall r # tr) = insert r (removed tr)"
  by (auto simp: removed_def)

lemma removed_Nil [simp]: "removed [] = {}"
  by (simp add: removed_def)

lemma findMissing_calls_append [simp]:
  "findMissing_calls (tr @ tr') = findMissing_calls tr + findMissing_calls tr'"
  by (simp add: findMissing_calls_def)

lemma findMissing_calls_removers [simp]: "findMissing_calls (map ChildRemoverCall rs) = 0"
  by (induction rs) (simp_all add: findMissing_calls_def)

lemma findMissing_calls_call [simp]:
  "findMissing_calls (FindMissingCall digests answer # tr) = Suc (findMissing_calls tr)"
  by (simp add: findMissing_calls_def)

lemma findMissing_calls_remover [simp]:
  "findMissing_calls (ChildRemoverCall r # tr) = findMissing_calls tr"
  by (simp add: findMissing_calls_def)

lemma findMissing_calls_Nil [simp]: "findMissing_calls [] = 0"
  by (simp add: findMissing_calls_def)

lemma answers_from_append:
  "answers_from M (tr @ tr') = (answers_from M tr \<and> answers_from M tr')"
  by (simp only: answers_from_def set_append Un_iff) blast

lemma answers_from_call:
  "answers_from M (FindMissingCall digests answer # tr) =
     ((\<forall>ms. answer = Inr ms \<longrightarrow> set ms \<inter> digests = M \<inter> digests) \<and> answers_from M tr)"
  by (simp only: answers_from_def set_simps insert_iff filter_event.inject) blast

subsection \<open>Digests of another digest function are never submitted\<close>

lemma queue_uses_Nil [simp]: "queue_uses f []"
  by (simp add: queue_uses_def)

lemma queue_uses_append [simp]:
  "queue_uses f (queue_append x r q) = (UsesDigestFunction x f \<and> queue_uses f q)"
  using keys_queue_append [of x r q] by (simp add: queue_uses_def del: set_map)




lemma find_foreign_None:
  "find (\<lambda>x. \<not> UsesDigestFunction x f) ds = None \<longleftrightarrow> (\<forall>x \<in> set ds. UsesDigestFunction x f)"
  by (auto simp: find_None_iff)






subsection \<open>Digests of another instance name or digest function\<close>


lemma childFilter_stops:
  "childFilter K f node q tr w = (False, err, q', tr', w') \<Longrightarrow> err \<noteq> None"
proof -
  have fd: "filter_digests K f r ds q tr w = (False, err, q', tr', w') \<Longrightarrow> err \<noteq> None" for r ds
    by (auto simp: filter_digests_def remove_node_def split: option.splits prod.splits)
  assume c: "childFilter K f node q tr w = (False, err, q', tr', w')"
  show ?thesis
  proof (cases node)
    case (LeafNode r ds)
    with c fd show ?thesis by simp
  next
    case (DirectoryNode r result)
    with c fd show ?thesis
      by (cases result) (auto simp: remove_node_def split: option.splits prod.splits if_splits)
  qed
qed










subsection \<open>What a pass without error removes\<close>

lemma pending_Nil [simp]: "pending M [] = {}"
  by (simp add: pending_def queue_lookup_def)

lemma pending_append:
  "pending M (queue_append x r q) = pending M q \<union> (if x \<in> M then {r} else {})"
  by (auto simp: pending_def queue_lookup_append split: if_splits)

lemma pending_single: "pending M [(x, [r])] = (if x \<in> M then {r} else {})"
  using pending_append [of M x r "[]"] by simp

lemma flushed_is_pending:
  assumes "set ms \<inter> set (map fst q) = M \<inter> set (map fst q)"
  shows "(\<Union>m \<in> set ms. set (queue_lookup q m)) = pending M q"
proof -
  have key: "r \<in> set (queue_lookup q m) \<Longrightarrow> m \<in> set (map fst q)" for r m
    by (cases "m \<in> set (map fst q)") (simp_all add: queue_lookup_not_key)
  show ?thesis
    unfolding pending_def using assms key by blast
qed

lemma findMissingAndRemove_ok:
  assumes "findMissingAndRemove K q tr w = (None, tr', w')"
  shows "\<exists>ext. tr' = tr @ ext \<and> findMissing_calls ext = 1 \<and>
    (answers_from M ext \<longrightarrow> removed ext = pending M q)"
proof -
  from findMissingAndRemove_events [OF assms] obtain ms rs where
    tr': "tr' = tr @ FindMissingCall (set (map fst q)) (Inr ms) # map ChildRemoverCall rs" and
    rs: "set rs = (\<Union>m \<in> set ms. set (queue_lookup q m))" by auto
  let ?ext = "FindMissingCall (set (map fst q)) (Inr ms) # map ChildRemoverCall rs"
  have "removed ?ext = pending M q" if "answers_from M ?ext"
  proof -
    from that have "set ms \<inter> set (map fst q) = M \<inter> set (map fst q)"
      by (simp add: answers_from_call)
    from flushed_is_pending [OF this] rs show ?thesis by simp
  qed
  then show ?thesis using tr' by (intro exI [of _ ?ext]) simp
qed

lemma enqueue_digests_ok:
  assumes "enqueue_digests K r ds q tr w = (None, q', tr', w')"
  shows "\<exists>ext. tr' = tr @ ext \<and>
    (answers_from M ext \<longrightarrow>
       removed ext \<union> pending M q' = pending M q \<union> (if set ds \<inter> M \<noteq> {} then {r} else {}))"
  using assms
proof (induction ds arbitrary: q tr w)
  case Nil
  then show ?case by (intro exI [of _ "[]"]) simp
next
  case (Cons x ds)
  show ?case
  proof (cases "length q \<ge> RecommendedFindMissingDigestsCount K")
    case False
    with Cons.prems have "enqueue_digests K r ds (queue_append x r q) tr w = (None, q', tr', w')"
      by simp
    from Cons.IH [OF this] obtain ext where
      ext: "tr' = tr @ ext"
        "answers_from M ext \<longrightarrow> removed ext \<union> pending M q' =
           pending M (queue_append x r q) \<union> (if set ds \<inter> M \<noteq> {} then {r} else {})"
      by blast
    show ?thesis
      using ext by (intro exI [of _ ext]) (auto simp: pending_append split: if_splits)
  next
    case True
    obtain e tr1 w1 where fm: "findMissingAndRemove K q tr w = (e, tr1, w1)"
      by (cases "findMissingAndRemove K q tr w") auto
    have e: "e = None" using True fm Cons.prems by (cases e) auto
    from findMissingAndRemove_ok [OF fm [unfolded e], of M] obtain ext1 where
      ext1: "tr1 = tr @ ext1" "answers_from M ext1 \<longrightarrow> removed ext1 = pending M q" by blast
    from True fm e Cons.prems have
      "enqueue_digests K r ds (queue_append x r []) tr1 w1 = (None, q', tr', w')" by simp
    from Cons.IH [OF this] obtain ext2 where
      ext2: "tr' = tr1 @ ext2"
        "answers_from M ext2 \<longrightarrow> removed ext2 \<union> pending M q' =
           pending M (queue_append x r []) \<union> (if set ds \<inter> M \<noteq> {} then {r} else {})"
      by blast
    have "removed (ext1 @ ext2) \<union> pending M q' =
        pending M q \<union> (if set (x # ds) \<inter> M \<noteq> {} then {r} else {})"
      if a: "answers_from M (ext1 @ ext2)"
    proof -
      from a have a1: "answers_from M ext1" and a2: "answers_from M ext2"
        by (simp_all add: answers_from_append)
      have "removed (ext1 @ ext2) \<union> pending M q' = removed ext1 \<union> (removed ext2 \<union> pending M q')"
        by auto
      also have "\<dots> = pending M q \<union>
          (pending M (queue_append x r []) \<union> (if set ds \<inter> M \<noteq> {} then {r} else {}))"
        using ext1(2) ext2(2) a1 a2 by simp
      also have "\<dots> = pending M q \<union> (if set (x # ds) \<inter> M \<noteq> {} then {r} else {})"
        by (auto simp: pending_single split: if_splits)
      finally show ?thesis .
    qed
    then show ?thesis using ext1(1) ext2(1) by (intro exI [of _ "ext1 @ ext2"]) simp
  qed
qed

lemma retained_hits:
  "node_digests node = Inr ds \<Longrightarrow>
     {r. \<exists>x \<in> M. (x, r) \<in> set (retained f node)} =
       (if (\<forall>x \<in> set ds. UsesDigestFunction x f) \<and> set ds \<inter> M \<noteq> {} then {node_id node} else {})"
  by (auto simp: retained_def)

lemma retained_unknown:
  "node_digests node = Inl e \<Longrightarrow> {r. \<exists>x \<in> M. (x, r) \<in> set (retained f node)} = {}"
  by (auto simp: retained_def)

text \<open>What the callback does to a node of each kind, when the traversal goes on.\<close>

lemma filter_digests_ok:
  assumes "filter_digests K f r ds q tr w = (True, err, q', tr', w')"
  shows "\<exists>ext. tr' = tr @ ext \<and>
    (answers_from M ext \<longrightarrow>
       removed ext \<union> pending M q' =
         pending M q \<union> (if \<exists>x \<in> set ds. \<not> UsesDigestFunction x f then {r} else {}) \<union>
         (if (\<forall>x \<in> set ds. UsesDigestFunction x f) \<and> set ds \<inter> M \<noteq> {} then {r} else {}))"
proof (cases "find (\<lambda>x. \<not> UsesDigestFunction x f) ds")
  case (Some x)
  then have fo: "\<exists>x \<in> set ds. \<not> UsesDigestFunction x f"
    using find_foreign_None [of f ds] by auto
  from assms Some have "tr' = tr @ [ChildRemoverCall r]" "q' = q"
    by (auto simp: filter_digests_def remove_node_def split: prod.splits option.splits)
  then show ?thesis using fo by (intro exI [of _ "[ChildRemoverCall r]"]) auto
next
  case None
  then have all: "\<forall>x \<in> set ds. UsesDigestFunction x f" by (simp add: find_foreign_None)
  obtain e q1 tr1 w1 where en: "enqueue_digests K r ds q tr w = (e, q1, tr1, w1)"
    by (cases "enqueue_digests K r ds q tr w") auto
  from assms None en have e: "e = None" "q' = q1" "tr' = tr1"
    by (auto simp: filter_digests_def split: option.splits)
  from enqueue_digests_ok [OF en [unfolded e(1)], of M] obtain ext where
    "tr1 = tr @ ext"
    "answers_from M ext \<longrightarrow>
       removed ext \<union> pending M q1 = pending M q \<union> (if set ds \<inter> M \<noteq> {} then {r} else {})"
    by blast
  then show ?thesis
    using all e by (intro exI [of _ ext]) auto
qed

lemma childFilter_ok:
  assumes "childFilter K f node q tr w = (True, err, q', tr', w')"
  shows "\<exists>ext. tr' = tr @ ext \<and>
    (answers_from M ext \<longrightarrow>
       removed ext \<union> pending M q' =
         pending M q \<union> removed_outright f node \<union> {r. \<exists>x \<in> M. (x, r) \<in> set (retained f node)})"
proof -
  have known: ?thesis
    if nd: "node_digests node = Inr ds" and r: "node_id node = r"
      and fd: "filter_digests K f r ds q tr w = (True, err, q', tr', w')" for r ds
  proof -
    have rh: "{r. \<exists>x \<in> M. (x, r) \<in> set (retained f node)} =
        (if (\<forall>x \<in> set ds. UsesDigestFunction x f) \<and> set ds \<inter> M \<noteq> {} then {r} else {})"
      using retained_hits [OF nd, of M f] r by simp
    have ro: "removed_outright f node =
        (if \<exists>x \<in> set ds. \<not> UsesDigestFunction x f then {r} else {})"
      using nd r by (simp add: removed_outright_def foreign_def not_found_def)
    from filter_digests_ok [OF fd, of M] show ?thesis unfolding rh ro .
  qed
  show ?thesis
  proof (cases node)
    case (LeafNode r ds)
    with assms known [of ds r] show ?thesis by simp
  next
    case (DirectoryNode r result)
    show ?thesis
    proof (cases result)
      case (Inr ds)
      with DirectoryNode assms known [of ds r] show ?thesis by simp
    next
      case (Inl e)
      with DirectoryNode assms have nf: "status_Code e = NotFound"
        and t: "tr' = tr @ [ChildRemoverCall r]" "q' = q"
        by (auto simp: remove_node_def split: if_splits prod.splits option.splits)
      have ro: "removed_outright f node = {r}"
        using DirectoryNode Inl nf by (simp add: removed_outright_def foreign_def not_found_def)
      have rh: "{r. \<exists>x \<in> M. (x, r) \<in> set (retained f node)} = {}"
        using retained_unknown [of node e M f] DirectoryNode Inl by simp
      show ?thesis
        unfolding ro rh using t by (intro exI [of _ "[ChildRemoverCall r]"]) simp
    qed
  qed
qed

lemma filter_nodes_ok:
  assumes "filter_nodes K f nodes q tr w = (None, q', tr', w')"
  shows "\<exists>ext. tr' = tr @ ext \<and>
    (answers_from M ext \<longrightarrow>
       removed ext \<union> pending M q' =
         pending M q \<union> (\<Union>node \<in> set nodes. removed_outright f node) \<union>
         {r. \<exists>x \<in> M. (x, r) \<in> set (occurrences f nodes)})"
  using assms
proof (induction nodes arbitrary: q tr w)
  case Nil
  then show ?case by (intro exI [of _ "[]"]) (simp add: occurrences_def)
next
  case (Cons node nodes)
  obtain go e q1 tr1 w1 where c: "childFilter K f node q tr w = (go, e, q1, tr1, w1)"
    by (cases "childFilter K f node q tr w") auto
  have go: go using c Cons.prems childFilter_stops [of K f node q tr w e q1 tr1 w1]
    by (cases go) auto
  with c Cons.prems have rest: "filter_nodes K f nodes q1 tr1 w1 = (None, q', tr', w')" by simp
  from childFilter_ok [OF c [unfolded eqTrueI [OF go]], of M] obtain ext1 where
    ext1: "tr1 = tr @ ext1"
      "answers_from M ext1 \<longrightarrow> removed ext1 \<union> pending M q1 =
         pending M q \<union> removed_outright f node \<union> {r. \<exists>x \<in> M. (x, r) \<in> set (retained f node)}"
    by blast
  from Cons.IH [OF rest] obtain ext2 where
    ext2: "tr' = tr1 @ ext2"
      "answers_from M ext2 \<longrightarrow> removed ext2 \<union> pending M q' =
         pending M q1 \<union> (\<Union>node \<in> set nodes. removed_outright f node) \<union>
         {r. \<exists>x \<in> M. (x, r) \<in> set (occurrences f nodes)}"
    by blast
  have "removed (ext1 @ ext2) \<union> pending M q' =
         pending M q \<union> (\<Union>node \<in> set (node # nodes). removed_outright f node) \<union>
         {r. \<exists>x \<in> M. (x, r) \<in> set (occurrences f (node # nodes))}"
    if a: "answers_from M (ext1 @ ext2)"
  proof -
    from a have a1: "answers_from M ext1" and a2: "answers_from M ext2"
      by (simp_all add: answers_from_append)
    have "removed (ext1 @ ext2) \<union> pending M q' = removed ext1 \<union> (removed ext2 \<union> pending M q')"
      by auto
    also have "\<dots> = removed ext1 \<union> (pending M q1 \<union>
        (\<Union>node \<in> set nodes. removed_outright f node) \<union>
         {r. \<exists>x \<in> M. (x, r) \<in> set (occurrences f nodes)})"
      using ext2(2) a2 by simp
    also have "\<dots> = (removed ext1 \<union> pending M q1) \<union>
        (\<Union>node \<in> set nodes. removed_outright f node) \<union>
         {r. \<exists>x \<in> M. (x, r) \<in> set (occurrences f nodes)}"
      by auto
    also have "\<dots> = (pending M q \<union> removed_outright f node \<union>
          {r. \<exists>x \<in> M. (x, r) \<in> set (retained f node)}) \<union>
        (\<Union>node \<in> set nodes. removed_outright f node) \<union>
         {r. \<exists>x \<in> M. (x, r) \<in> set (occurrences f nodes)}"
      using ext1(2) a1 by simp
    also have "\<dots> = pending M q \<union> (\<Union>node \<in> set (node # nodes). removed_outright f node) \<union>
         {r. \<exists>x \<in> M. (x, r) \<in> set (occurrences f (node # nodes))}"
      by (auto simp: occurrences_def)
    finally show ?thesis .
  qed
  then show ?case using ext1(1) ext2(1) by (intro exI [of _ "ext1 @ ext2"]) simp
qed

lemma filterMissingChildren_removes:
  assumes ok: "filterMissingChildren K root f w = (None, tr, w')"
    and answers: "answers_from M tr"
  shows "removed tr =
    (\<Union>node \<in> set (fst (FilterChildren K root w)). removed_outright f node) \<union>
    {r. \<exists>x \<in> M. (x, r) \<in> set (occurrences f (fst (FilterChildren K root w)))}"
proof -
  obtain nodes e where fc: "FilterChildren K root w = (nodes, e)" by (metis prod.collapse)
  obtain savedErr q tr0 w1 where fn: "filter_nodes K f nodes [] [] w = (savedErr, q, tr0, w1)"
    by (cases "filter_nodes K f nodes [] [] w") auto
  from ok have none: "e = None" "savedErr = None"
    by (auto simp: filterMissingChildren_def fc fn split: option.splits if_splits)
  from filter_nodes_ok [OF fn [unfolded none], of M] have
    main: "answers_from M tr0 \<longrightarrow> removed tr0 \<union> pending M q =
       (\<Union>node \<in> set nodes. removed_outright f node) \<union>
       {r. \<exists>x \<in> M. (x, r) \<in> set (occurrences f nodes)}"
    by simp
  show ?thesis
  proof (cases "length q > 0")
    case False
    with ok have "tr = tr0" by (simp add: filterMissingChildren_def fc fn none)
    moreover from False have "pending M q = {}" by simp
    ultimately show ?thesis using main answers by (simp add: fc)
  next
    case True
    with ok have fm: "findMissingAndRemove K q tr0 w1 = (None, tr, w')"
      by (simp add: filterMissingChildren_def fc fn none)
    from findMissingAndRemove_ok [OF fm, of M] obtain ext where
      ext: "tr = tr0 @ ext" "answers_from M ext \<longrightarrow> removed ext = pending M q" by blast
    from answers ext(1) have "answers_from M tr0" "answers_from M ext"
      by (simp_all add: answers_from_append)
    with main ext show ?thesis by (simp add: fc Un_assoc)
  qed
qed

subsection \<open>How many FindMissing calls a pass without error makes\<close>

lemma keys_queue_append_list:
  "map fst (queue_append x r q) =
     (if x \<in> set (map fst q) then map fst q else map fst q @ [x])"
  by (induction x r q rule: queue_append.induct) (auto simp: image_iff)

lemma findMissingAndRemove_calls:
  assumes "findMissingAndRemove K q tr w = (err, tr', w')"
  shows "findMissing_calls tr' = Suc (findMissing_calls tr)"
  using findMissingAndRemove_events [OF assms] by auto

lemma enqueue_digests_batches:
  assumes "enqueue_digests K r ds q tr w = (None, q', tr', w')"
  shows "findMissing_calls tr' +
      batches (RecommendedFindMissingDigestsCount K) (map fst q') rest =
    findMissing_calls tr +
      batches (RecommendedFindMissingDigestsCount K) (map fst q) (ds @ rest)"
  using assms
proof (induction ds arbitrary: q tr w)
  case Nil
  then show ?case by simp
next
  case (Cons x ds)
  let ?T = "RecommendedFindMissingDigestsCount K"
  show ?case
  proof (cases "?T \<le> length q")
    case False
    with Cons.prems have "enqueue_digests K r ds (queue_append x r q) tr w = (None, q', tr', w')"
      by simp
    from Cons.IH [OF this] have "findMissing_calls tr' + batches ?T (map fst q') rest =
        findMissing_calls tr + batches ?T (map fst (queue_append x r q)) (ds @ rest)" .
    also have "batches ?T (map fst (queue_append x r q)) (ds @ rest) =
        batches ?T (map fst q) ((x # ds) @ rest)"
      using False unfolding keys_queue_append_list by simp
    finally show ?thesis .
  next
    case True
    obtain e tr1 w1 where fm: "findMissingAndRemove K q tr w = (e, tr1, w1)"
      by (cases "findMissingAndRemove K q tr w") auto
    have e: "e = None" using True fm Cons.prems by (cases e) auto
    note calls = findMissingAndRemove_calls [OF fm]
    from True fm e Cons.prems have
      "enqueue_digests K r ds (queue_append x r []) tr1 w1 = (None, q', tr', w')" by simp
    from Cons.IH [OF this] have "findMissing_calls tr' + batches ?T (map fst q') rest =
        findMissing_calls tr1 + batches ?T [x] (ds @ rest)" by simp
    also have "\<dots> = findMissing_calls tr + batches ?T (map fst q) ((x # ds) @ rest)"
      using True by (simp add: calls)
    finally show ?thesis .
  qed
qed

lemma retained_keys:
  "node_digests node = Inr ds \<Longrightarrow>
     map fst (retained f node) = (if \<forall>x \<in> set ds. UsesDigestFunction x f then ds else [])"
  by (simp add: retained_def comp_def)

lemma childFilter_batches:
  assumes run: "childFilter K f node q tr w = (True, err, q', tr', w')"
  shows "findMissing_calls tr' +
      batches (RecommendedFindMissingDigestsCount K) (map fst q') rest =
    findMissing_calls tr +
      batches (RecommendedFindMissingDigestsCount K) (map fst q)
        (map fst (retained f node) @ rest)"
proof -
  let ?T = "RecommendedFindMissingDigestsCount K"
  have known: ?thesis
    if nd: "node_digests node = Inr ds"
      and fd: "filter_digests K f r ds q tr w = (True, err, q', tr', w')" for r ds
  proof (cases "find (\<lambda>x. \<not> UsesDigestFunction x f) ds")
    case (Some x)
    then have "\<not> (\<forall>x \<in> set ds. UsesDigestFunction x f)"
      using find_foreign_None [of f ds] by auto
    then have r: "retained f node = []" using nd by (auto simp: retained_def)
    from fd Some have "tr' = tr @ [ChildRemoverCall r]" "q' = q"
      by (auto simp: filter_digests_def remove_node_def split: prod.splits option.splits)
    then show ?thesis using r by simp
  next
    case None
    then have all: "\<forall>x \<in> set ds. UsesDigestFunction x f" by (simp add: find_foreign_None)
    then have keys: "map fst (retained f node) = ds" using nd by (simp add: retained_keys)
    obtain e q1 tr1 w1 where en: "enqueue_digests K r ds q tr w = (e, q1, tr1, w1)"
      by (cases "enqueue_digests K r ds q tr w") auto
    from fd None en have e: "e = None" "q' = q1" "tr' = tr1"
      by (auto simp: filter_digests_def split: option.splits)
    from enqueue_digests_batches [OF en [unfolded e(1)], of rest]
    show ?thesis unfolding keys e .
  qed
  show ?thesis
  proof (cases node)
    case (LeafNode r ds)
    with run known [of ds r] show ?thesis by simp
  next
    case (DirectoryNode r result)
    show ?thesis
    proof (cases result)
      case (Inr ds)
      with DirectoryNode run known [of ds r] show ?thesis by simp
    next
      case (Inl e)
      with DirectoryNode run have "tr' = tr @ [ChildRemoverCall r]" "q' = q"
        by (auto simp: remove_node_def split: if_splits prod.splits option.splits)
      moreover have "retained f node = []" using DirectoryNode Inl by (simp add: retained_def)
      ultimately show ?thesis by simp
    qed
  qed
qed

lemma filter_nodes_batches:
  assumes "filter_nodes K f nodes q tr w = (None, q', tr', w')"
  shows "findMissing_calls tr' +
      batches (RecommendedFindMissingDigestsCount K) (map fst q') rest =
    findMissing_calls tr +
      batches (RecommendedFindMissingDigestsCount K) (map fst q)
        (map fst (occurrences f nodes) @ rest)"
  using assms
proof (induction nodes arbitrary: q tr w)
  case Nil
  then show ?case by (simp add: occurrences_def)
next
  case (Cons node nodes)
  let ?T = "RecommendedFindMissingDigestsCount K"
  have occ: "map fst (occurrences f (node # nodes)) @ rest =
      map fst (retained f node) @ map fst (occurrences f nodes) @ rest"
    by (simp add: occurrences_def)
  obtain go e q1 tr1 w1 where c: "childFilter K f node q tr w = (go, e, q1, tr1, w1)"
    by (cases "childFilter K f node q tr w") auto
  have go: go using c Cons.prems childFilter_stops [of K f node q tr w e q1 tr1 w1]
    by (cases go) auto
  with c Cons.prems have "filter_nodes K f nodes q1 tr1 w1 = (None, q', tr', w')" by simp
  from Cons.IH [OF this] have "findMissing_calls tr' + batches ?T (map fst q') rest =
      findMissing_calls tr1 + batches ?T (map fst q1) (map fst (occurrences f nodes) @ rest)" .
  also have "\<dots> = findMissing_calls tr +
      batches ?T (map fst q) (map fst (retained f node) @ map fst (occurrences f nodes) @ rest)"
    by (rule childFilter_batches [OF c [unfolded eqTrueI [OF go]]])
  finally show ?case unfolding occ .
qed

lemma filterMissingChildren_batches:
  assumes ok: "filterMissingChildren K root f w = (None, tr, w')"
  shows "findMissing_calls tr =
    batches (RecommendedFindMissingDigestsCount K) []
      (map fst (occurrences f (fst (FilterChildren K root w))))"
proof -
  let ?T = "RecommendedFindMissingDigestsCount K"
  obtain nodes e where fc: "FilterChildren K root w = (nodes, e)" by (metis prod.collapse)
  obtain savedErr q tr0 w1 where fn: "filter_nodes K f nodes [] [] w = (savedErr, q, tr0, w1)"
    by (cases "filter_nodes K f nodes [] [] w") auto
  from ok have none: "e = None" "savedErr = None"
    by (auto simp: filterMissingChildren_def fc fn split: option.splits if_splits)
  from filter_nodes_batches [OF fn [unfolded none], of "[]"]
  have n: "findMissing_calls tr0 + (if q = [] then 0 else 1) =
      batches ?T [] (map fst (occurrences f nodes))" by simp
  show ?thesis
  proof (cases "length q > 0")
    case False
    with ok have "tr = tr0" by (simp add: filterMissingChildren_def fc fn none)
    with False n show ?thesis by (simp add: fc)
  next
    case True
    with ok have fm: "findMissingAndRemove K q tr0 w1 = (None, tr, w')"
      by (simp add: filterMissingChildren_def fc fn none)
    from findMissingAndRemove_calls [OF fm] True n show ?thesis by (simp add: fc)
  qed
qed

lemma batches_lower:
  assumes T: "1 \<le> T"
  shows "distinct batch \<Longrightarrow> length batch \<le> T \<Longrightarrow>
    card (set batch \<union> set xs) \<le> batches T batch xs * T"
proof (induction xs arbitrary: batch)
  case Nil
  then have "card (set batch) \<le> T" by (simp add: distinct_card)
  then show ?case by (cases "batch = []") simp_all
next
  case (Cons x xs)
  show ?case
  proof (cases "T \<le> length batch")
    case True
    from Cons.IH [of "[x]"] T have "card (set [x] \<union> set xs) \<le> batches T [x] xs * T" by simp
    moreover have "card (set batch \<union> set (x # xs)) \<le> card (set batch) + card (set [x] \<union> set xs)"
      using card_Un_le [of "set batch" "set [x] \<union> set xs"] by simp
    moreover have "card (set batch) \<le> T" using Cons.prems by (simp add: distinct_card)
    ultimately show ?thesis using True by simp
  next
    case False
    let ?b = "if x \<in> set batch then batch else batch @ [x]"
    have d: "distinct ?b" and l: "length ?b \<le> T" using Cons.prems False by auto
    have s: "set ?b \<union> set xs = set batch \<union> set (x # xs)" by auto
    from Cons.IH [OF d l] show ?thesis using False unfolding s by simp
  qed
qed

lemma batches_upper:
  assumes T: "1 \<le> T"
  shows "batches T batch xs * T + 1 \<le> length batch + length xs + T"
proof (induction xs arbitrary: batch)
  case Nil
  show ?case using T by (cases batch) simp_all
next
  case (Cons x xs)
  show ?case
  proof (cases "T \<le> length batch")
    case True
    from Cons.IH [of "[x]"] have "batches T [x] xs * T + 1 \<le> 1 + length xs + T" by simp
    then show ?thesis using True by simp
  next
    case False
    let ?b = "if x \<in> set batch then batch else batch @ [x]"
    have "length ?b \<le> Suc (length batch)" by simp
    with Cons.IH [of ?b] have "batches T ?b xs * T + 1 \<le> Suc (length batch) + length xs + T"
      by linarith
    then show ?thesis using False by simp
  qed
qed

lemma batches_bounds:
  assumes T: "1 \<le> T"
  shows "(card (set xs) + T - 1) div T \<le> batches T [] xs"
    and "batches T [] xs \<le> (length xs + T - 1) div T"
proof -
  from batches_lower [OF T, of "[]" xs] have low: "card (set xs) \<le> batches T [] xs * T" by simp
  from batches_upper [OF T, of "[]" xs] have up: "batches T [] xs * T + 1 \<le> length xs + T" by simp
  have pos: "0 < T" using T by simp
  have "card (set xs) + T - 1 < Suc (batches T [] xs) * T" using low pos by simp
  then have "(card (set xs) + T - 1) div T < Suc (batches T [] xs)"
    using pos by (simp only: div_less_iff_less_mult)
  then show "(card (set xs) + T - 1) div T \<le> batches T [] xs" by simp
  have "batches T [] xs * T \<le> length xs + T - 1" using up by simp
  then show "batches T [] xs \<le> (length xs + T - 1) div T"
    using pos by (simp only: less_eq_div_iff_mult_less_eq)
qed

text \<open>
  Claim C3, as the code has it. Take a pass that returns no error. Its FindMissing
  calls are the batches of the digests that it retains, taken in turn with one
  occurrence for every node that has the digest. For a threshold \<open>T\<close> of at least
  one these are at least \<open>ceil(N/T)\<close> calls, \<open>N\<close> being the number of distinct
  digests retained, and at most \<open>ceil(M/T)\<close>, \<open>M\<close> being the number of
  occurrences; exactly \<open>ceil(N/T)\<close> when no digest is retained for two nodes.
  The events of the pass are the calls that it has made on the collaborators, whose
  state is the one these calls leave, and no remover has failed. When the store
  answers each call according to one set of missing blobs, the nodes whose remover
  the pass has called are exactly the nodes that the callback removes itself (a
  digest of another digest function, a directory that is not found) and the nodes
  for which some retained digest is in that set: one missing digest removes every
  node queued under it.
\<close>

theorem filter_batches:
  assumes "filterMissingChildren K root f w = (None, tr, w')"
  shows "findMissing_calls tr =
      batches (RecommendedFindMissingDigestsCount K) []
        (map fst (occurrences f (fst (FilterChildren K root w)))) \<and>
    (1 \<le> RecommendedFindMissingDigestsCount K \<longrightarrow>
       (card (set (map fst (occurrences f (fst (FilterChildren K root w))))) +
          RecommendedFindMissingDigestsCount K - 1) div RecommendedFindMissingDigestsCount K
         \<le> findMissing_calls tr \<and>
       findMissing_calls tr \<le>
         (length (occurrences f (fst (FilterChildren K root w))) +
            RecommendedFindMissingDigestsCount K - 1) div RecommendedFindMissingDigestsCount K \<and>
       (distinct (map fst (occurrences f (fst (FilterChildren K root w)))) \<longrightarrow>
          findMissing_calls tr =
            (card (set (map fst (occurrences f (fst (FilterChildren K root w))))) +
               RecommendedFindMissingDigestsCount K - 1) div
              RecommendedFindMissingDigestsCount K)) \<and>
    w' = replay K tr w \<and> performed K tr w \<and> removers_succeed K tr w \<and>
    (answers_from missing tr \<longrightarrow>
       removed tr =
         (\<Union>node \<in> set (fst (FilterChildren K root w)). removed_outright f node) \<union>
         {r. \<exists>x \<in> missing. (x, r) \<in> set (occurrences f (fst (FilterChildren K root w)))})"
proof -
  let ?T = "RecommendedFindMissingDigestsCount K"
  let ?occs = "occurrences f (fst (FilterChildren K root w))"
  note count = filterMissingChildren_batches [OF assms]
  have bounds: "(card (set (map fst ?occs)) + ?T - 1) div ?T \<le> findMissing_calls tr \<and>
       findMissing_calls tr \<le> (length ?occs + ?T - 1) div ?T \<and>
       (distinct (map fst ?occs) \<longrightarrow>
          findMissing_calls tr = (card (set (map fst ?occs)) + ?T - 1) div ?T)"
    if T: "1 \<le> ?T"
  proof -
    from batches_bounds [OF T, of "map fst ?occs"]
    have low: "(card (set (map fst ?occs)) + ?T - 1) div ?T \<le> findMissing_calls tr"
      and up: "findMissing_calls tr \<le> (length ?occs + ?T - 1) div ?T"
      unfolding count by simp_all
    have "findMissing_calls tr = (card (set (map fst ?occs)) + ?T - 1) div ?T"
      if "distinct (map fst ?occs)"
    proof -
      from that have "card (set (map fst ?occs)) = length ?occs" by (metis distinct_card length_map)
      with low up show ?thesis by simp
    qed
    with low up show ?thesis by blast
  qed
  note calls = filterMissingChildren_performs [OF assms]
  have removal: "removed tr =
         (\<Union>node \<in> set (fst (FilterChildren K root w)). removed_outright f node) \<union>
         {r. \<exists>x \<in> missing. (x, r) \<in> set ?occs}"
    if "answers_from missing tr"
    using filterMissingChildren_removes [OF assms] that by simp
  show ?thesis
  proof (intro conjI impI)
    show "findMissing_calls tr = batches ?T [] (map fst ?occs)" by (rule count)
    show "(card (set (map fst ?occs)) + ?T - 1) div ?T \<le> findMissing_calls tr" if "1 \<le> ?T"
      using bounds [OF that] by (rule conjunct1)
    show "findMissing_calls tr \<le> (length ?occs + ?T - 1) div ?T" if "1 \<le> ?T"
      using bounds [OF that] by (elim conjE)
    show "findMissing_calls tr = (card (set (map fst ?occs)) + ?T - 1) div ?T"
      if "1 \<le> ?T" "distinct (map fst ?occs)"
      using bounds [OF that(1)] that(2) by (elim conjE impE)
    show "w' = replay K tr w" using calls by (rule conjunct1)
    show "performed K tr w" using calls by (elim conjE)
    show "removers_succeed K tr w" using calls by simp
    show "removed tr =
         (\<Union>node \<in> set (fst (FilterChildren K root w)). removed_outright f node) \<union>
         {r. \<exists>x \<in> missing. (x, r) \<in> set ?occs}"
      if "answers_from missing tr" using that by (rule removal)
  qed
qed

theorem filter_batches_witness:
  "filterMissingChildren K2 1 (''main'', 1) plain_world =
     (None, fst (snd (filterMissingChildren K2 1 (''main'', 1) plain_world)),
      snd (snd (filterMissingChildren K2 1 (''main'', 1) plain_world))) \<and>
   1 \<le> RecommendedFindMissingDigestsCount K2 \<and>
   distinct (map fst (occurrences (''main'', 1) (fst (FilterChildren K2 1 plain_world)))) \<and>
   answers_from {digest_a} (fst (snd (filterMissingChildren K2 1 (''main'', 1) plain_world))) \<and>
   findMissing_calls (fst (snd (filterMissingChildren K2 1 (''main'', 1) plain_world))) = 1 \<and>
   removed (fst (snd (filterMissingChildren K2 1 (''main'', 1) plain_world))) =
     (\<Union>node \<in> set (fst (FilterChildren K2 1 plain_world)). removed_outright (''main'', 1) node) \<union>
     {r. \<exists>x \<in> {digest_a}.
        (x, r) \<in> set (occurrences (''main'', 1) (fst (FilterChildren K2 1 plain_world)))} \<and>
   removed (fst (snd (filterMissingChildren K2 1 (''main'', 1) plain_world))) = {2, 5} \<and>
   snd (snd (filterMissingChildren K2 1 (''main'', 1) plain_world)) =
     replay K2 (fst (snd (filterMissingChildren K2 1 (''main'', 1) plain_world))) plain_world \<and>
   children plain_world 1 = [(''x'', ChildLeaf 2), (''y'', ChildLeaf 3), (''v'', ChildLeaf 5)] \<and>
   children (snd (snd (filterMissingChildren K2 1 (''main'', 1) plain_world))) 1 =
     [(''y'', ChildLeaf 3)]"
proof -
  let ?tr = "fst (snd (filterMissingChildren K2 1 (''main'', 1) plain_world))"
  let ?w = "snd (snd (filterMissingChildren K2 1 (''main'', 1) plain_world))"
  let ?occs = "occurrences (''main'', 1) (fst (FilterChildren K2 1 plain_world))"
  have e: "fst (filterMissingChildren K2 1 (''main'', 1) plain_world) = None" by code_simp
  have h1: "filterMissingChildren K2 1 (''main'', 1) plain_world = (None, ?tr, ?w)"
    using e by (metis prod.collapse)
  have h2: "1 \<le> RecommendedFindMissingDigestsCount K2" by code_simp
  have T: "RecommendedFindMissingDigestsCount K2 = 2" by code_simp
  have h3: "distinct (map fst ?occs)" by code_simp
  have n: "card (set (map fst ?occs)) = 2" by code_simp
  have tr: "?tr = [ChildRemoverCall 5, FindMissingCall {digest_a, digest_b} (Inr [digest_a]),
      ChildRemoverCall 2]"
    by code_simp
  have h4: "answers_from {digest_a} ?tr"
    unfolding tr by (simp add: answers_from_def)
  have before: "children plain_world 1 =
      [(''x'', ChildLeaf 2), (''y'', ChildLeaf 3), (''v'', ChildLeaf 5)]" by code_simp
  have after: "children ?w 1 = [(''y'', ChildLeaf 3)]" by code_simp
  have set: "removed ?tr = {2, 5}" unfolding tr by auto
  note claim = filter_batches [OF h1, of "{digest_a}"]
  from claim have "1 \<le> RecommendedFindMissingDigestsCount K2 \<longrightarrow>
       (card (set (map fst ?occs)) + RecommendedFindMissingDigestsCount K2 - 1) div
          RecommendedFindMissingDigestsCount K2 \<le> findMissing_calls ?tr \<and>
       findMissing_calls ?tr \<le>
         (length ?occs + RecommendedFindMissingDigestsCount K2 - 1) div
           RecommendedFindMissingDigestsCount K2 \<and>
       (distinct (map fst ?occs) \<longrightarrow>
          findMissing_calls ?tr = (card (set (map fst ?occs)) +
            RecommendedFindMissingDigestsCount K2 - 1) div RecommendedFindMissingDigestsCount K2)"
    by (elim conjE)
  with h2 h3 have calls: "findMissing_calls ?tr = (card (set (map fst ?occs)) +
      RecommendedFindMissingDigestsCount K2 - 1) div RecommendedFindMissingDigestsCount K2"
    by blast
  then have h5: "findMissing_calls ?tr = 1" unfolding n T by simp
  from claim have state: "?w = replay K2 ?tr plain_world" by (elim conjE)
  from claim have "answers_from {digest_a} ?tr \<longrightarrow> removed ?tr =
     (\<Union>node \<in> set (fst (FilterChildren K2 1 plain_world)). removed_outright (''main'', 1) node) \<union>
     {r. \<exists>x \<in> {digest_a}. (x, r) \<in> set ?occs}"
    by (elim conjE)
  from this h4 have h6: "removed ?tr =
     (\<Union>node \<in> set (fst (FilterChildren K2 1 plain_world)). removed_outright (''main'', 1) node) \<union>
     {r. \<exists>x \<in> {digest_a}. (x, r) \<in> set ?occs}"
    by (rule mp)
  show ?thesis by (intro conjI h1 h2 h3 h4 h5 h6 set state before after)
qed

text \<open>
  The count of the claim fails when two nodes have a digest in common. The tree
  holds three files, the first and the third with the same contents, so that two
  distinct digests are retained; the threshold is 2. The pass flushes the two
  digests of the first two files when it reaches the third, whose digest it queues
  anew, and makes a second call for it at the end: 2 calls, not \<open>ceil(2/2) = 1\<close>.
\<close>

theorem filter_batches_counterexample:
  "fst (filterMissingChildren K2 1 (''main'', 1) shared_world) = None \<and>
   RecommendedFindMissingDigestsCount K2 = 2 \<and>
   card (set (map fst (occurrences (''main'', 1) (fst (FilterChildren K2 1 shared_world))))) = 2 \<and>
   findMissing_calls (fst (snd (filterMissingChildren K2 1 (''main'', 1) shared_world))) = 2 \<and>
   (2 + 2 - 1) div 2 \<noteq> (2::nat)"
  by code_simp

section \<open>The list of output paths\<close>

subsection \<open>Linked objects\<close>

lemma linked_Cons: "linked h (p # ps) = (case ps of [] \<Rightarrow> True
    | q # qs \<Rightarrow> next' (h p) = q \<and> previous (h q) = p \<and> linked h ps)"
  by (cases ps) simp_all

lemma linked_append: "linked h (as @ b # cs) = (linked h (as @ [b]) \<and> linked h (b # cs))"
proof (induction as rule: linked.induct)
  case (1 h)
  then show ?case by simp
next
  case (2 h p)
  then show ?case by (cases cs) auto
next
  case (3 h p q ps)
  then show ?case by auto
qed

text \<open>Linked objects stay linked when the links that the list reads are kept.\<close>

lemma linked_frame:
  assumes "linked h ps"
    and "\<forall>q \<in> set (butlast ps). next' (h' q) = next' (h q)"
    and "\<forall>q \<in> set (tl ps). previous (h' q) = previous (h q)"
  shows "linked h' ps"
  using assms
proof (induction ps rule: linked.induct)
  case (3 h p q ps)
  then show ?case by auto
qed simp_all

lemma linked_fields:
  assumes "\<And>q. next' (h' q) = next' (h q)" "\<And>q. previous (h' q) = previous (h q)"
  shows "linked h' ps = linked h ps"
proof
  assume "linked h' ps"
  then show "linked h ps" by (rule linked_frame) (simp_all add: assms)
next
  assume "linked h ps"
  then show "linked h' ps" by (rule linked_frame) (simp_all add: assms)
qed

lemma ring_fields:
  assumes "\<And>q. next' (h' q) = next' (h q)" "\<And>q. previous (h' q) = previous (h q)"
  shows "ring h' xs = ring h xs"
  by (simp add: ring_def linked_fields [of h' h, OF assms])

lemma linked_last:
  "linked h (ps @ [e]) \<Longrightarrow> ps \<noteq> [] \<Longrightarrow> previous (h e) = last ps"
proof (induction ps rule: linked.induct)
  case (3 h p q ps)
  then show ?case by (cases ps) auto
qed auto

lemma linked_first:
  "linked h (p # ps) \<Longrightarrow> ps \<noteq> [] \<Longrightarrow> next' (h p) = hd ps"
  by (cases ps) auto

lemma linked_unique:
  "linked h (p # xs @ [0]) \<Longrightarrow> linked h (p # ys @ [0]) \<Longrightarrow> 0 \<notin> set xs \<Longrightarrow> 0 \<notin> set ys \<Longrightarrow>
     xs = ys"
proof (induction xs arbitrary: p ys)
  case Nil
  then show ?case by (cases ys) auto
next
  case (Cons x xs)
  then show ?case by (cases ys) auto
qed

lemma ring_unique:
  assumes "ring h xs" "ring h ys"
  shows "xs = ys"
  using assms linked_unique [of h 0 xs ys] by (simp add: ring_def)

subsection \<open>StartBuild appends the new object\<close>

lemma ring_previous_head: "ring h xs \<Longrightarrow> previous (h 0) = last (0 # xs)"
  using linked_last [of h "0 # xs" 0] by (simp add: ring_def)

lemma ring_next_head: "ring h xs \<Longrightarrow> next' (h 0) = hd (xs @ [0])"
  using linked_first [of h 0 "xs @ [0]"] by (simp add: ring_def)

lemma StartBuild_locked_fresh_links:
  assumes "buildIDs d b = None" "outputBaseIDs d ob = None"
    and "previous (objects d 0) \<noteq> allocated d" and "0 < allocated d"
  shows "next' (objects (fst (snd (StartBuild_locked K b ob f v d w))) q) =
           (if q = previous (objects d 0) then allocated d
            else if q = allocated d then 0 else next' (objects d q))"
    and "previous (objects (fst (snd (StartBuild_locked K b ob f v d w))) q) =
           (if q = 0 then allocated d
            else if q = allocated d then previous (objects d 0) else previous (objects d q))"
  using assms
  by (auto simp: StartBuild_locked_def Let_def split: option.splits prod.splits)

lemma ring_append:
  assumes r: "ring h xs" and s: "s \<noteq> 0" "s \<notin> set xs" and l: "l = last (0 # xs)"
    and n: "\<And>q. next' (h' q) = (if q = l then s else if q = s then 0 else next' (h q))"
    and p: "\<And>q. previous (h' q) = (if q = 0 then s else if q = s then l else previous (h q))"
  shows "ring h' (xs @ [s])"
proof -
  from r have dist: "distinct (0 # xs)" and lk: "linked h ((0 # xs) @ [0])"
    by (simp_all add: ring_def)
  obtain as where as: "0 # xs = as @ [l]"
    unfolding l by (metis append_butlast_last_id list.distinct(1))
  have l_notin: "l \<notin> set as" using dist unfolding as by simp
  have "l \<in> set (0 # xs)" unfolding as by simp
  then have sl: "s \<noteq> l" using s by auto
  have "linked h (as @ [l])" using lk unfolding as by (simp add: linked_append [of h as l "[0]"])
  then have a: "linked h' (as @ [l])"
  proof (rule linked_frame)
    show "\<forall>q \<in> set (butlast (as @ [l])). next' (h' q) = next' (h q)"
    proof
      fix q assume "q \<in> set (butlast (as @ [l]))"
      then have q: "q \<in> set as" by simp
      then have "q \<noteq> l" using l_notin by auto
      moreover have "q \<in> set (0 # xs)" unfolding as using q by simp
      then have "q \<noteq> s" using s by auto
      ultimately show "next' (h' q) = next' (h q)" by (simp add: n)
    qed
    show "\<forall>q \<in> set (tl (as @ [l])). previous (h' q) = previous (h q)"
    proof
      fix q assume "q \<in> set (tl (as @ [l]))"
      then have "q \<in> set (tl (0 # xs))" unfolding as .
      then have q: "q \<in> set xs" by simp
      then have "q \<noteq> 0" using dist by (cases "q = 0") auto
      moreover have "q \<noteq> s" using q s by auto
      ultimately show "previous (h' q) = previous (h q)" by (simp add: p)
    qed
  qed
  have b: "linked h' [l, s, 0]" using s sl by (simp add: n p)
  have "linked h' (as @ l # [s, 0])"
    using a b by (simp add: linked_append [of h' as l "[s, 0]"])
  also have "as @ l # [s, 0] = (as @ [l]) @ [s, 0]" by simp
  also have "\<dots> = 0 # (xs @ [s]) @ [0]" unfolding as [symmetric] by simp
  finally show ?thesis using r s by (simp add: ring_def)
qed

subsection \<open>Clean unlinks the object\<close>

lemma ring_remove:
  assumes r: "ring h (ys @ p # zs)" and a: "a = last (0 # ys)" and b: "b = hd (zs @ [0])"
    and n: "\<And>q. next' (h' q) = (if q = a then b else next' (h q))"
    and pr: "\<And>q. previous (h' q) = (if q = b then a else previous (h q))"
  shows "ring h' (ys @ zs)"
proof -
  from r have dist: "distinct (ys @ p # zs)" and zero: "0 \<notin> set (ys @ p # zs)"
    and lk: "linked h (0 # (ys @ p # zs) @ [0])"
    by (simp_all add: ring_def)
  obtain as where as: "0 # ys = as @ [a]"
    unfolding a by (metis append_butlast_last_id list.distinct(1))
  obtain cs where cs: "zs @ [0] = b # cs"
    unfolding b by (cases zs) auto
  have whole: "0 # (ys @ p # zs) @ [0] = as @ a # p # b # cs"
    using as cs by (metis append.assoc append_Cons append_Nil)
  have a_in: "a \<in> set (0 # ys)" unfolding as by simp
  have b_in: "b \<in> set (zs @ [0])" unfolding cs by simp
  have a_notin: "a \<notin> set as"
  proof -
    have "distinct (0 # ys)" using dist zero by auto
    then show ?thesis unfolding as by simp
  qed
  have b_notin: "b \<notin> set cs"
  proof -
    have "distinct (zs @ [0])" using dist zero by auto
    then show ?thesis unfolding cs by simp
  qed
  have l1: "linked h (as @ [a])" and l2: "linked h (b # cs)"
    using lk unfolding whole by (simp_all add: linked_append [of h as a "p # b # cs"])
  have f1: "linked h' (as @ [a])"
    using l1
  proof (rule linked_frame)
    show "\<forall>q \<in> set (butlast (as @ [a])). next' (h' q) = next' (h q)"
      using a_notin by (auto simp: n)
    show "\<forall>q \<in> set (tl (as @ [a])). previous (h' q) = previous (h q)"
    proof
      fix q assume "q \<in> set (tl (as @ [a]))"
      then have "q \<in> set (tl (0 # ys))" unfolding as .
      then have q: "q \<in> set ys" by simp
      have "q \<noteq> b"
      proof
        assume "q = b"
        with b_in q have "q \<in> set zs \<or> q = 0" by auto
        with q dist zero show False by auto
      qed
      then show "previous (h' q) = previous (h q)" by (simp add: pr)
    qed
  qed
  have f2: "linked h' (b # cs)"
    using l2
  proof (rule linked_frame)
    show "\<forall>q \<in> set (butlast (b # cs)). next' (h' q) = next' (h q)"
    proof
      fix q assume "q \<in> set (butlast (b # cs))"
      then have "q \<in> set (butlast (zs @ [0]))" unfolding cs .
      then have q: "q \<in> set zs" by simp
      have "q \<noteq> a"
      proof
        assume "q = a"
        with a_in q have "q = 0 \<or> q \<in> set ys" by auto
        with q dist zero show False by auto
      qed
      then show "next' (h' q) = next' (h q)" by (simp add: n)
    qed
    show "\<forall>q \<in> set (tl (b # cs)). previous (h' q) = previous (h q)"
      using b_notin by (auto simp: pr)
  qed
  have "linked h' (as @ a # b # cs)"
    using f1 f2 by (simp add: linked_append [of h' as a "b # cs"] n pr)
  also have "as @ a # b # cs = 0 # (ys @ zs) @ [0]"
    using as cs by (metis append.assoc append_Cons append_Nil)
  finally show ?thesis using dist zero by (simp add: ring_def)
qed

lemma ring_neighbours:
  assumes r: "ring h (ys @ p # zs)"
  shows "previous (h p) = last (0 # ys)" and "next' (h p) = hd (zs @ [0])"
    and "p \<noteq> last (0 # ys)" and "p \<noteq> 0"
proof -
  from r have dist: "distinct (ys @ p # zs)" and zero: "0 \<notin> set (ys @ p # zs)"
    and lk: "linked h (0 # (ys @ p # zs) @ [0])"
    by (simp_all add: ring_def)
  have "linked h ((0 # ys) @ p # zs @ [0])" using lk by simp
  then have l1: "linked h ((0 # ys) @ [p])" and l2: "linked h (p # zs @ [0])"
    unfolding linked_append [of h "0 # ys" p "zs @ [0]"] by simp_all
  from linked_last [OF l1] show "previous (h p) = last (0 # ys)" by simp
  from linked_first [OF l2] show "next' (h p) = hd (zs @ [0])" by simp
  show "p \<noteq> 0" using zero by auto
  have "last (0 # ys) \<in> set (0 # ys)" by (rule last_in_set) simp
  then show "p \<noteq> last (0 # ys)" using dist zero by auto
qed

lemma Clean_locked_links:
  assumes "outputBaseIDs d ob = Some p" and "p \<noteq> previous (objects d p)"
  shows "next' (objects (Clean_locked ob p d) q) =
           (if q = previous (objects d p) then next' (objects d p) else next' (objects d q))"
    and "previous (objects (Clean_locked ob p d) q) =
           (if q = next' (objects d p) then previous (objects d p) else previous (objects d q))"
  using assms by (auto simp: Clean_locked_def Let_def split: option.splits)

subsection \<open>The calls keep the list and the cookies\<close>

lemma ran_remove:
  assumes "m k = Some v" and "\<And>k'. m k' = Some v \<Longrightarrow> k' = k"
  shows "ran (m(k := None)) = ran m - {v}"
proof (intro set_eqI iffI)
  fix x assume "x \<in> ran (m(k := None))"
  then obtain a where a: "(m(k := None)) a = Some x" unfolding ran_def by blast
  then have ak: "a \<noteq> k" and ma: "m a = Some x" by (simp_all split: if_splits)
  have "x \<noteq> v" using assms(2) [of a] ak ma by auto
  then show "x \<in> ran m - {v}" using ma by (simp add: ranI)
next
  fix x assume "x \<in> ran m - {v}"
  then obtain a where ma: "m a = Some x" and xv: "x \<noteq> v" unfolding ran_def by blast
  then have "a \<noteq> k" using assms(1) by auto
  then have "(m(k := None)) a = Some x" using ma by simp
  then show "x \<in> ran (m(k := None))" by (rule ranI)
qed

lemma ran_add: "m k = None \<Longrightarrow> ran (m(k \<mapsto> v)) = insert v (ran m)"
  by (rule ran_map_upd)

lemma ring_invariant_Clean_locked:
  assumes reg: "registry_invariant d" and ri: "ring_invariant d xs"
    and ob: "outputBaseIDs d ob = Some p"
  shows "ring_invariant (Clean_locked ob p d) (remove1 p xs)"
proof -
  note F = Clean_locked_fields [OF ob]
  from ri have r: "ring (objects d) xs" and ran: "set xs = ran (outputBaseIDs d)"
    and srt: "sorted_wrt (<) xs" and al: "\<forall>x \<in> set xs. x < allocated d"
    by (simp_all add: ring_invariant_def)
  have "p \<in> set xs" using ob ran by (auto simp: ran_def)
  then obtain ys zs where xs: "xs = ys @ p # zs" and py: "p \<notin> set ys"
    by (meson split_list_first)
  have dist: "distinct xs" using r by (simp add: ring_def)
  have rem: "remove1 p xs = ys @ zs" using py by (simp add: xs remove1_append)
  note N = ring_neighbours [OF r [unfolded xs]]
  note L = Clean_locked_links [OF ob, unfolded N(1), OF N(3)]
  have ring': "ring (objects (Clean_locked ob p d)) (ys @ zs)"
    by (rule ring_remove [OF r [unfolded xs] refl refl]) (simp_all add: L N)
  have inj: "outputBaseIDs d ob' = Some p \<Longrightarrow> ob' = ob" for ob'
    using invD_base [OF reg] ob by blast
  have "set (ys @ zs) = set xs - {p}" using dist by (auto simp: xs)
  also have "\<dots> = ran (outputBaseIDs (Clean_locked ob p d))"
    unfolding F ran
    by (rule ran_remove [of "outputBaseIDs d" ob p, symmetric]) (fact ob, erule inj)
  finally have ran': "set (ys @ zs) = ran (outputBaseIDs (Clean_locked ob p d))" .
  have srt': "sorted_wrt (<) (ys @ zs)" using srt by (auto simp: xs sorted_wrt_append)
  have al': "\<forall>x \<in> set (ys @ zs). x < allocated (Clean_locked ob p d)"
    using al by (auto simp: xs F)
  show ?thesis unfolding rem ring_invariant_def using ring' ran' srt' al' by blast
qed

lemma ring_invariant_StartBuild_locked:
  assumes reg: "registry_invariant d" and ri: "ring_invariant d xs"
  shows "ring_invariant (fst (snd (StartBuild_locked K b ob f v d w)))
    (if buildIDs d b = None \<and> outputBaseIDs d ob = None then xs @ [allocated d] else xs)"
proof (cases "buildIDs d b")
  case (Some p)
  then show ?thesis using ri by (simp add: StartBuild_locked_known)
next
  case None
  from ri have r: "ring (objects d) xs" and ran: "set xs = ran (outputBaseIDs d)"
    and srt: "sorted_wrt (<) xs" and al: "\<forall>x \<in> set xs. x < allocated d"
    by (simp_all add: ring_invariant_def)
  let ?d = "fst (snd (StartBuild_locked K b ob f v d w))"
  show ?thesis
  proof (cases "outputBaseIDs d ob")
    case (Some p)
    note F = StartBuild_locked_reuse [OF None Some, of K f v w]
    have "ring (objects ?d) xs = ring (objects d) xs"
      by (rule ring_fields) (simp_all add: F)
    then show ?thesis using ri Some by (simp add: ring_invariant_def F)
  next
    case ob: None
    note F = StartBuild_locked_fresh [OF None ob, of K f v w]
    let ?s = "allocated d"
    have pos: "0 < ?s" by (rule invD_alloc [OF reg])
    have fresh: "?s \<notin> set xs" using al by auto
    have last: "last (0 # xs) \<in> set (0 # xs)" by (rule last_in_set) simp
    have prev: "previous (objects d 0) = last (0 # xs)" by (rule ring_previous_head [OF r])
    have "previous (objects d 0) \<noteq> ?s" unfolding prev using last al pos by auto
    note L = StartBuild_locked_fresh_links [OF None ob this pos, of K f v w]
    have ring': "ring (objects ?d) (xs @ [?s])"
      by (rule ring_append [OF r _ fresh prev]) (use pos in \<open>simp_all add: L\<close>)
    have ran': "set (xs @ [?s]) = ran (outputBaseIDs ?d)"
      using ran ob by (simp add: F ran_add)
    have srt': "sorted_wrt (<) (xs @ [?s])" using srt al by (simp add: sorted_wrt_append)
    have al': "\<forall>x \<in> set (xs @ [?s]). x < allocated ?d" using al by (auto simp: F)
    show ?thesis using None ob ring' ran' srt' al' by (simp add: ring_invariant_def)
  qed
qed

lemma ring_invariant_FinalizeBuild:
  assumes reg: "registry_invariant d" and ri: "ring_invariant d xs"
  shows "ring_invariant (fst (snd (FinalizeBuild K b d w))) xs"
proof (cases "buildIDs d b")
  case None
  then show ?thesis using ri by (simp add: FinalizeBuild_def)
next
  case (Some p)
  from invD_build [OF reg Some] obtain bs where bs: "buildState (objects d p) = Some bs" by blast
  note F = FinalizeBuild_fields [OF Some bs, of K w]
  have "ring (objects (fst (snd (FinalizeBuild K b d w)))) xs = ring (objects d) xs"
    by (rule ring_fields) (simp_all add: F)
  then show ?thesis using ri by (simp add: ring_invariant_def F)
qed

text \<open>The counter grows when it is not the largest word.\<close>

lemma word_less_succ: "c + 1 \<noteq> 0 \<Longrightarrow> c < c + 1" for c :: "64 word"
  by unat_arith

lemma cookie_invariant_Clean_locked:
  assumes ci: "cookie_invariant d" and nowrap: "changeID d + 1 \<noteq> 0"
  shows "cookie_invariant (Clean_locked ob p d)"
proof (cases "outputBaseIDs d ob = Some p")
  case False
  then show ?thesis using ci by (simp add: Clean_locked_def)
next
  case True
  note F = Clean_locked_fields [OF True]
  have "x < changeID d \<Longrightarrow> x < changeID d + 1" for x
    using word_less_succ [OF nowrap] by simp
  then show ?thesis using ci by (simp add: cookie_invariant_def F)
qed

lemma cookie_invariant_StartBuild_locked:
  assumes ci: "cookie_invariant d" and nowrap: "changeID d + 1 \<noteq> 0"
  shows "cookie_invariant (fst (snd (StartBuild_locked K b ob f v d w)))"
proof (cases "buildIDs d b")
  case (Some p)
  then show ?thesis using ci by (simp add: StartBuild_locked_known)
next
  case None
  show ?thesis
  proof (cases "outputBaseIDs d ob")
    case (Some p)
    note F = StartBuild_locked_reuse [OF None Some, of K f v w]
    show ?thesis using ci by (simp add: cookie_invariant_def F)
  next
    case ob: None
    note F = StartBuild_locked_fresh [OF None ob, of K f v w]
    have up: "x < changeID d \<Longrightarrow> x < changeID d + 1" for x
      using word_less_succ [OF nowrap] by simp
    show ?thesis
      using ci up word_less_succ [OF nowrap]
      by (auto simp: cookie_invariant_def F less_Suc_eq)
  qed
qed

lemma cookie_invariant_FinalizeBuild:
  assumes reg: "registry_invariant d" and ci: "cookie_invariant d"
  shows "cookie_invariant (fst (snd (FinalizeBuild K b d w)))"
proof (cases "buildIDs d b")
  case None
  then show ?thesis using ci by (simp add: FinalizeBuild_def)
next
  case (Some p)
  from invD_build [OF reg Some] obtain bs where bs: "buildState (objects d p) = Some bs" by blast
  note F = FinalizeBuild_fields [OF Some bs, of K w]
  show ?thesis using ci by (simp add: cookie_invariant_def F)
qed

subsection \<open>The calls keep the objects\<close>

lemma evolves_refl [simp]: "evolves d d"
  by (simp add: evolves_def)

lemma evolves_Clean_locked: "evolves d (Clean_locked ob p d)"
proof (cases "outputBaseIDs d ob = Some p")
  case False
  then show ?thesis by (simp add: Clean_locked_def)
next
  case True
  note F = Clean_locked_fields [OF True]
  show ?thesis by (simp add: evolves_def entry_of_def F)
qed

lemma StartBuild_locked_fresh_root:
  assumes "buildIDs d b = None" "outputBaseIDs d ob = None" "q \<noteq> allocated d"
  shows "rootDirectory (objects (fst (snd (StartBuild_locked K b ob f v d w))) q) =
    rootDirectory (objects d q)"
  using assms
  by (simp add: StartBuild_locked_def Let_def split: option.splits prod.splits)

lemma evolves_StartBuild_locked: "evolves d (fst (snd (StartBuild_locked K b ob f v d w)))"
proof (cases "buildIDs d b")
  case (Some p)
  then show ?thesis by (simp add: StartBuild_locked_known)
next
  case None
  show ?thesis
  proof (cases "outputBaseIDs d ob")
    case (Some p)
    note F = StartBuild_locked_reuse [OF None Some, of K f v w]
    show ?thesis by (simp add: evolves_def entry_of_def F)
  next
    case ob: None
    note F = StartBuild_locked_fresh [OF None ob, of K f v w]
    show ?thesis
      by (simp add: evolves_def entry_of_def F StartBuild_locked_fresh_root [OF None ob])
  qed
qed

lemma evolves_FinalizeBuild: "evolves d (fst (snd (FinalizeBuild K b d w)))"
  by (auto simp: evolves_def entry_of_def FinalizeBuild_def split: option.splits)

subsection \<open>Sequences of calls\<close>

lemma Clean_registry_known:
  "fst (snd (Clean K x d w)) = d \<or>
   (\<exists>ob p. outputBaseIDs d ob = Some p \<and> fst (snd (Clean K x d w)) = Clean_locked ob p d)"
  by (auto simp: Clean_def split: option.splits prod.splits)

lemma word_succ_neq: "c + 1 \<noteq> c" for c :: "64 word"
  by simp

lemma cookie_invariant_StartBuild_locked_same:
  assumes ci: "cookie_invariant d"
    and same: "changeID (fst (snd (StartBuild_locked K b ob f v d w))) = changeID d"
  shows "cookie_invariant (fst (snd (StartBuild_locked K b ob f v d w)))"
proof (cases "buildIDs d b")
  case (Some p)
  then show ?thesis using ci by (simp add: StartBuild_locked_known)
next
  case None
  show ?thesis
  proof (cases "outputBaseIDs d ob")
    case (Some p)
    note F = StartBuild_locked_reuse [OF None Some, of K f v w]
    show ?thesis using ci by (simp add: cookie_invariant_def F)
  next
    case ob: None
    from StartBuild_locked_fresh(5) [OF None ob, of K f v w] same
    have "changeID d + 1 = changeID d" by simp
    then show ?thesis using word_succ_neq [of "changeID d"] by simp
  qed
qed

lemma enumeration_invariantI:
  "registry_invariant d \<Longrightarrow> ring_invariant d xs \<Longrightarrow> cookie_invariant d \<Longrightarrow>
     \<exists>xs'. enumeration_invariant d xs'"
  unfolding enumeration_invariant_def by (intro exI [of _ xs] conjI)

lemma enumeration_invariant_step:
  assumes inv: "enumeration_invariant d xs"
    and nowrap: "changeID (fst (step K operation (d, w))) \<noteq> changeID d \<Longrightarrow> changeID d + 1 \<noteq> 0"
  shows "\<exists>xs'. enumeration_invariant (fst (step K operation (d, w))) xs'"
proof -
  from inv have reg: "registry_invariant d" and ri: "ring_invariant d xs"
    and ci: "cookie_invariant d" by (simp_all add: enumeration_invariant_def)
  have same: "\<exists>xs'. enumeration_invariant d xs'" using inv by (rule exI)
  have clean: "\<exists>xs'. enumeration_invariant (Clean_locked ob p d) xs'"
    if "outputBaseIDs d ob = Some p" and "changeID d + 1 \<noteq> 0" for ob p
    by (rule enumeration_invariantI [OF registry_invariant_Clean_locked [OF reg]
          ring_invariant_Clean_locked [OF reg ri that(1)]
          cookie_invariant_Clean_locked [OF ci that(2)]])
  have start: "\<exists>xs'. enumeration_invariant (fst (snd (StartBuild_locked K b ob f v d w))) xs'"
    if "changeID (fst (snd (StartBuild_locked K b ob f v d w))) \<noteq> changeID d \<Longrightarrow>
      changeID d + 1 \<noteq> 0" for b ob f v
  proof (cases "changeID (fst (snd (StartBuild_locked K b ob f v d w))) = changeID d")
    case True
    show ?thesis
      by (rule enumeration_invariantI [OF registry_invariant_StartBuild_locked [OF reg]
            ring_invariant_StartBuild_locked [OF reg ri]
            cookie_invariant_StartBuild_locked_same [OF ci True]])
  next
    case False
    show ?thesis
      by (rule enumeration_invariantI [OF registry_invariant_StartBuild_locked [OF reg]
            ring_invariant_StartBuild_locked [OF reg ri]
            cookie_invariant_StartBuild_locked [OF ci that [OF False]]])
  qed
  have finalize: "\<exists>xs'. enumeration_invariant (fst (snd (FinalizeBuild K b d w))) xs'" for b
    by (rule enumeration_invariantI [OF registry_invariant_FinalizeBuild [OF reg]
          ring_invariant_FinalizeBuild [OF reg ri]
          cookie_invariant_FinalizeBuild [OF reg ci]])
  show ?thesis
  proof (cases operation)
    case (CleanOp x)
    from Clean_registry_known [of K x d w] consider "fst (snd (Clean K x d w)) = d"
      | ob p where "outputBaseIDs d ob = Some p" "fst (snd (Clean K x d w)) = Clean_locked ob p d"
      by blast
    then show ?thesis
    proof cases
      case 1
      then show ?thesis using CleanOp same by simp
    next
      case 2
      have "changeID (fst (step K operation (d, w))) = changeID d + 1"
        using CleanOp 2(2) Clean_locked_fields(4) [OF 2(1)] by simp
      then have "changeID d + 1 \<noteq> 0" using nowrap word_succ_neq [of "changeID d"] by simp
      then show ?thesis using CleanOp 2(2) clean [OF 2(1)] by simp
    qed
  next
    case (StartBuildOp request)
    from StartBuild_registry [of K request d w]
    consider "fst (snd (snd (StartBuild K request d w))) = d"
      | ob f v where "fst (snd (snd (StartBuild K request d w))) =
          fst (snd (StartBuild_locked K (BuildId request) ob f v d w))" by blast
    then show ?thesis
    proof cases
      case 1
      then show ?thesis using StartBuildOp same by simp
    next
      case 2
      have "\<exists>xs'. enumeration_invariant
          (fst (snd (StartBuild_locked K (BuildId request) ob f v d w))) xs'"
        by (rule start) (use nowrap StartBuildOp 2 in simp)
      then show ?thesis using StartBuildOp 2 by simp
    qed
  next
    case (BatchCreateOp request)
    with same show ?thesis by simp
  next
    case (BatchStatOp request)
    with same show ?thesis by simp
  next
    case (FinalizeBuildOp b)
    with finalize show ?thesis by simp
  qed
qed

lemma evolves_trans: "evolves a b \<Longrightarrow> evolves b c \<Longrightarrow> evolves a c"
  by (auto simp: evolves_def)

lemma evolves_step: "evolves d (fst (step K operation (d, w)))"
proof (cases operation)
  case (CleanOp x)
  from Clean_registry [of K x d w] consider "fst (snd (Clean K x d w)) = d"
    | ob p where "fst (snd (Clean K x d w)) = Clean_locked ob p d" by blast
  then show ?thesis
  proof cases
    case 1
    then show ?thesis using CleanOp by simp
  next
    case 2
    then show ?thesis using CleanOp evolves_Clean_locked [of d ob p] by simp
  qed
next
  case (StartBuildOp request)
  from StartBuild_registry [of K request d w]
  consider "fst (snd (snd (StartBuild K request d w))) = d"
    | ob f v where "fst (snd (snd (StartBuild K request d w))) =
        fst (snd (StartBuild_locked K (BuildId request) ob f v d w))" by blast
  then show ?thesis
  proof cases
    case 1
    then show ?thesis using StartBuildOp by simp
  next
    case 2
    then show ?thesis
      using StartBuildOp evolves_StartBuild_locked [of d K "BuildId request" ob f v w] by simp
  qed
next
  case (FinalizeBuildOp b)
  with evolves_FinalizeBuild show ?thesis by simp
qed simp_all

lemma changeID_Clean_locked:
  "changeID (Clean_locked ob p d) = changeID d \<or> changeID (Clean_locked ob p d) = changeID d + 1"
  by (simp add: Clean_locked_def Let_def split: option.splits)

lemma changeID_StartBuild_locked:
  "changeID (fst (snd (StartBuild_locked K b ob f v d w))) = changeID d \<or>
   changeID (fst (snd (StartBuild_locked K b ob f v d w))) = changeID d + 1"
  by (simp add: StartBuild_locked_def Let_def split: option.splits prod.splits)

lemma changeID_step:
  "changeID (fst (step K operation (d, w))) = changeID d \<or>
   changeID (fst (step K operation (d, w))) = changeID d + 1"
proof (cases operation)
  case (CleanOp x)
  from Clean_registry [of K x d w] consider "fst (snd (Clean K x d w)) = d"
    | ob p where "fst (snd (Clean K x d w)) = Clean_locked ob p d" by blast
  then show ?thesis
  proof cases
    case 1
    then show ?thesis using CleanOp by simp
  next
    case 2
    then show ?thesis using CleanOp changeID_Clean_locked [of ob p d] by simp
  qed
next
  case (StartBuildOp request)
  from StartBuild_registry [of K request d w]
  consider "fst (snd (snd (StartBuild K request d w))) = d"
    | ob f v where "fst (snd (snd (StartBuild K request d w))) =
        fst (snd (StartBuild_locked K (BuildId request) ob f v d w))" by blast
  then show ?thesis
  proof cases
    case 1
    then show ?thesis using StartBuildOp by simp
  next
    case 2
    then show ?thesis
      using StartBuildOp changeID_StartBuild_locked [of K "BuildId request" ob f v d w] by simp
  qed
next
  case (FinalizeBuildOp b)
  then show ?thesis by (simp add: FinalizeBuild_def split: option.splits)
qed simp_all

lemma unat_succ_le: "unat (c + 1) \<le> unat c + 1" for c :: "64 word"
  by unat_arith

lemma nowrap_bound:
  fixes c :: "64 word"
  assumes "unat c + 1 < 2 ^ 64"
  shows "c + 1 \<noteq> 0"
proof
  assume z: "c + 1 = 0"
  have "unat (c + 1) = (unat c + 1) mod 2 ^ 64" by (simp add: unat_word_ariths)
  then have "unat (c + 1) = unat c + 1" using assms by simp
  then show False using z by simp
qed

lemma counter_moves_append:
  "counter_moves K (ops1 @ ops2) s = counter_moves K ops1 s + counter_moves K ops2 (run K ops1 s)"
  by (induction ops1 arbitrary: s) simp_all

lemma counter_moves_le_length: "counter_moves K ops s \<le> length ops"
proof (induction ops arbitrary: s)
  case Nil
  then show ?case by simp
next
  case (Cons operation ops)
  from Cons.IH [of "step K operation s"] show ?case by simp
qed

lemma enumeration_invariant_run:
  assumes "enumeration_invariant d xs"
    and "unat (changeID d) + counter_moves K ops (d, w) < 2 ^ 64"
  shows "\<exists>xs'. enumeration_invariant (fst (run K ops (d, w))) xs' \<and>
    evolves d (fst (run K ops (d, w))) \<and>
    unat (changeID (fst (run K ops (d, w)))) \<le> unat (changeID d) + counter_moves K ops (d, w)"
  using assms
proof (induction ops arbitrary: d w xs)
  case Nil
  then show ?case by auto
next
  case (Cons operation ops)
  obtain d1 w1 where s1: "step K operation (d, w) = (d1, w1)" by (cases "step K operation (d, w)")
  let ?m = "if changeID d1 = changeID d then 0 else 1 :: nat"
  have moves: "counter_moves K (operation # ops) (d, w) = ?m + counter_moves K ops (d1, w1)"
    by (simp add: s1)
  have nowrap: "changeID d + 1 \<noteq> 0" if "changeID d1 \<noteq> changeID d"
    using Cons.prems(2) that unfolding moves by (intro nowrap_bound) simp
  from enumeration_invariant_step [OF Cons.prems(1), of K operation w] s1 nowrap
  obtain xs1 where inv1: "enumeration_invariant d1 xs1" by auto
  have ev1: "evolves d d1" using evolves_step [of d K operation w] s1 by simp
  have "unat (changeID d1) \<le> unat (changeID d) + ?m"
    using changeID_step [of K operation d w] s1 unat_succ_le [of "changeID d"] by auto
  then have c1: "unat (changeID d1) + counter_moves K ops (d1, w1) < 2 ^ 64"
    and c1': "unat (changeID d1) + counter_moves K ops (d1, w1) \<le>
      unat (changeID d) + counter_moves K (operation # ops) (d, w)"
    using Cons.prems(2) unfolding moves by simp_all
  from Cons.IH [OF inv1 c1] obtain xs' where
    "enumeration_invariant (fst (run K ops (d1, w1))) xs'"
    "evolves d1 (fst (run K ops (d1, w1)))"
    "unat (changeID (fst (run K ops (d1, w1)))) \<le>
       unat (changeID d1) + counter_moves K ops (d1, w1)"
    by blast
  then show ?case using s1 ev1 c1' evolves_trans by (auto intro: exI [of _ xs'])
qed

lemma enumeration_invariant_New:
  "enumeration_invariant (NewRemoteOutputServiceDirectory m) []"
  by (simp add: enumeration_invariant_def registry_invariant_New ring_invariant_def ring_def
      cookie_invariant_def)
     (auto simp: NewRemoteOutputServiceDirectory_def)

lemma run_append: "run K (ops1 @ ops2) s = run K ops2 (run K ops1 s)"
  by (induction ops1 arbitrary: s) simp_all

subsection \<open>VirtualReadDir on the list\<close>

lemma linked_suffix: "linked h (as @ bs) \<Longrightarrow> linked h bs"
proof (induction as)
  case Nil
  then show ?case by simp
next
  case (Cons a as)
  then show ?case by (cases "as @ bs") auto
qed

lemma first_past_cookie_linked:
  "linked h (ys @ [0]) \<Longrightarrow> 0 \<notin> set ys \<Longrightarrow>
     first_past_cookie h c (hd (ys @ [0])) =
       Some (hd (dropWhile (\<lambda>x. cookie (h x) < c) ys @ [0]))"
proof (induction ys)
  case Nil
  show ?case by (subst first_past_cookie.simps) simp
next
  case (Cons y ys)
  then have y: "y \<noteq> 0" and nxt: "next' (h y) = hd (ys @ [0])" and rest: "linked h (ys @ [0])"
    and zero: "0 \<notin> set ys"
    by (cases ys; auto)+
  show ?case
  proof (cases "cookie (h y) < c")
    case True
    then have "\<not> c \<le> cookie (h y)" by simp
    then have "first_past_cookie h c y = first_past_cookie h c (hd (ys @ [0]))"
      using y nxt by (subst first_past_cookie.simps) simp
    then show ?thesis using True Cons.IH [OF rest zero] by simp
  next
    case False
    then have "c \<le> cookie (h y)" by simp
    then have "first_past_cookie h c y = Some y"
      using y by (subst first_past_cookie.simps) simp
    then show ?thesis using False by simp
  qed
qed

lemma report_entries_linked:
  "linked h (zs @ [0]) \<Longrightarrow> 0 \<notin> set zs \<Longrightarrow>
     report_entries h reporter (hd (zs @ [0])) reported =
       Some (accepted reporter reported (map (entry_of h) zs))"
proof (induction zs arbitrary: reported)
  case Nil
  show ?case by (subst report_entries.simps) simp
next
  case (Cons z zs)
  then have z: "z \<noteq> 0" and nxt: "next' (h z) = hd (zs @ [0])" and rest: "linked h (zs @ [0])"
    and zero: "0 \<notin> set zs"
    by (cases zs; auto)+
  have "report_entries h reporter z reported =
      (if reporter reported (entry_of h z)
       then report_entries h reporter (hd (zs @ [0])) (reported @ [entry_of h z])
       else Some reported)"
    using z nxt unfolding entry_of_def by (subst report_entries.simps) simp
  then show ?case using Cons.IH [OF rest zero] by simp
qed

lemma VirtualReadDir_ring:
  assumes "ring (objects d) xs"
  shows "VirtualReadDir d c reporter =
    Some (accepted reporter []
      (map (entry_of (objects d)) (dropWhile (\<lambda>x. cookie (objects d x) < c) xs)))"
proof -
  let ?h = "objects d"
  let ?zs = "dropWhile (\<lambda>x. cookie (?h x) < c) xs"
  from assms have lk: "linked ?h (xs @ [0])" and zero: "0 \<notin> set xs"
    using linked_suffix [of ?h "[0]" "xs @ [0]"] by (simp_all add: ring_def)
  have first: "first_past_cookie ?h c (next' (?h 0)) = Some (hd (?zs @ [0]))"
    using first_past_cookie_linked [OF lk zero] ring_next_head [OF assms] by simp
  have "xs = takeWhile (\<lambda>x. cookie (?h x) < c) xs @ ?zs" by simp
  then have lk': "linked ?h (?zs @ [0])"
    using lk linked_suffix [of ?h "takeWhile (\<lambda>x. cookie (?h x) < c) xs" "?zs @ [0]"]
    by (metis append.assoc)
  have zero': "0 \<notin> set ?zs" using zero by (meson set_dropWhileD)
  show ?thesis
  proof (cases ?zs)
    case Nil
    show ?thesis unfolding VirtualReadDir_def first Nil by simp
  next
    case (Cons z zs)
    then have "hd (?zs @ [0]) \<noteq> 0" using zero' by auto
    then show ?thesis
      unfolding VirtualReadDir_def first
      using report_entries_linked [OF lk' zero', of reporter "[]"] by simp
  qed
qed

lemma accepted_all: "accepted (\<lambda>reported e. True) reported es = reported @ es"
  by (induction es arbitrary: reported) simp_all

lemma accepted_prefix: "\<exists>n. accepted reporter reported es = reported @ take n es"
proof (induction es arbitrary: reported)
  case Nil
  then show ?case by simp
next
  case (Cons e es)
  show ?case
  proof (cases "reporter reported e")
    case True
    from Cons.IH [of "reported @ [e]"] obtain n where
      "accepted reporter (reported @ [e]) es = (reported @ [e]) @ take n es" by blast
    then show ?thesis using True by (intro exI [of _ "Suc n"]) simp
  next
    case False
    then show ?thesis by (intro exI [of _ 0]) simp
  qed
qed

lemma dropWhile_sorted:
  fixes f :: "'a \<Rightarrow> 'b::linorder"
  shows "sorted_wrt (<) (map f xs) \<Longrightarrow> dropWhile (\<lambda>x. f x < c) xs = filter (\<lambda>x. c \<le> f x) xs"
proof (induction xs)
  case Nil
  then show ?case by simp
next
  case (Cons x xs)
  show ?case
  proof (cases "f x < c")
    case True
    then show ?thesis using Cons by simp
  next
    case False
    then have "\<forall>y \<in> set xs. c \<le> f y" using Cons.prems by fastforce
    then have "filter (\<lambda>x. c \<le> f x) xs = xs" by (simp add: filter_id_conv)
    then show ?thesis using False by simp
  qed
qed

subsection \<open>Resuming an enumeration\<close>

lemma listed_after_sorted:
  fixes xs :: "'a::linorder list"
  assumes srt: "sorted_wrt (<) xs" and y: "y \<in> set xs" and x: "x \<in> set xs"
  shows "listed_after xs y x = (y < x)"
proof
  assume "listed_after xs y x"
  then obtain as bs cs where "xs = as @ y # bs @ x # cs"
    unfolding listed_after_def by blast
  with srt show "y < x" by (simp add: sorted_wrt_append)
next
  assume less: "y < x"
  from y obtain as rest where xs: "xs = as @ y # rest" by (meson split_list)
  have "x \<notin> set as"
  proof
    assume "x \<in> set as"
    with srt xs have "x < y" by (simp add: sorted_wrt_append)
    with less show False by simp
  qed
  with x xs less have "x \<in> set rest" by auto
  then obtain bs cs where "rest = bs @ x # cs" by (meson split_list)
  with xs show "listed_after xs y x" unfolding listed_after_def by blast
qed

lemma succ_not_zero:
  fixes a k :: "64 word"
  assumes "a < k"
  shows "a + 1 \<noteq> 0"
proof
  assume "a + 1 = 0"
  then have "a = - 1" by (simp add: eq_neg_iff_add_eq_0)
  with assms have "- 1 < k" by simp
  moreover have "k \<le> - 1" by simp
  ultimately show False by simp
qed

lemma succ_le_iff:
  fixes a k :: "64 word"
  assumes "a + 1 \<noteq> 0"
  shows "(a + 1 \<le> k) = (a < k)"
proof
  assume "a + 1 \<le> k"
  with word_less_succ [OF assms] show "a < k" by simp
next
  assume "a < k"
  then show "a + 1 \<le> k" by (rule inc_le)
qed

lemma invariant_members:
  assumes "enumeration_invariant d xs" and "x \<in> set xs"
  shows "0 < x" and "x < allocated d" and "cookie (objects d x) < changeID d"
proof -
  from assms(1) have ri: "ring_invariant d xs" and ci: "cookie_invariant d"
    by (simp_all add: enumeration_invariant_def)
  from ri have "ring (objects d) xs" unfolding ring_invariant_def by blast
  then have "0 \<notin> set xs" unfolding ring_def by blast
  with assms(2) have "x \<noteq> 0" by metis
  then show pos: "0 < x" by simp
  from ri assms(2) show al: "x < allocated d" by (simp add: ring_invariant_def)
  from ci pos al show "cookie (objects d x) < changeID d" by (simp add: cookie_invariant_def)
qed

lemma cookie_less_iff:
  assumes ci: "cookie_invariant d"
    and x: "0 < x" "x < allocated d" and y: "0 < y" "y < allocated d"
  shows "(cookie (objects d y) < cookie (objects d x)) = (y < x)"
proof -
  have mono: "cookie (objects d a) < cookie (objects d b)"
    if "0 < a" "a < b" "b < allocated d" for a b
    using ci that by (simp add: cookie_invariant_def)
  consider "y < x" | "y = x" | "x < y" by (rule linorder_cases)
  then show ?thesis
  proof cases
    case 1
    then show ?thesis using mono [of y x] x y by simp
  next
    case 2
    then show ?thesis by simp
  next
    case 3
    then have "cookie (objects d x) < cookie (objects d y)" using mono [of x y] x y by simp
    then have "\<not> cookie (objects d y) < cookie (objects d x)" by simp
    then show ?thesis using 3 by simp
  qed
qed

lemma cookies_increasing:
  assumes inv: "enumeration_invariant d xs"
  shows "sorted_wrt (<) (map (\<lambda>x. cookie (objects d x)) xs)"
proof -
  from inv have ri: "ring_invariant d xs" and ci: "cookie_invariant d"
    by (simp_all add: enumeration_invariant_def)
  from ri have srt: "sorted_wrt (<) xs" by (simp add: ring_invariant_def)
  have "sorted_wrt (\<lambda>x y. cookie (objects d x) < cookie (objects d y)) xs"
  proof (rule sorted_wrt_mono_rel [OF _ srt])
    fix x y
    assume "x \<in> set xs" "y \<in> set xs" "x < y"
    then show "cookie (objects d x) < cookie (objects d y)"
      using cookie_less_iff [OF ci invariant_members(1,2) [OF inv] invariant_members(1,2) [OF inv],
          of y x]
      by simp
  qed
  then show ?thesis by (simp add: sorted_wrt_map)
qed

lemma cookies_inj:
  assumes inv: "enumeration_invariant d xs"
    and x: "x \<in> set xs" and y: "y \<in> set xs"
    and same: "entry_of (objects d) x = entry_of (objects d) y"
  shows "x = y"
proof (rule ccontr)
  assume "x \<noteq> y"
  from inv have ci: "cookie_invariant d" by (simp add: enumeration_invariant_def)
  note X = invariant_members(1,2) [OF inv x] and Y = invariant_members(1,2) [OF inv y]
  from same have eq: "cookie (objects d x) = cookie (objects d y)" by (simp add: entry_of_def)
  from \<open>x \<noteq> y\<close> consider "x < y" | "y < x" by (meson linorder_neqE_nat)
  then show False
  proof cases
    case 1
    with cookie_less_iff [OF ci Y X] eq show False by simp
  next
    case 2
    with cookie_less_iff [OF ci X Y] eq show False by simp
  qed
qed

lemma entries_distinct:
  assumes inv: "enumeration_invariant d xs"
  shows "distinct (map (entry_of (objects d)) (filter P xs))"
proof -
  from inv have "distinct xs" by (simp add: enumeration_invariant_def ring_invariant_def ring_def)
  then have "distinct (filter P xs)" by simp
  moreover have "inj_on (entry_of (objects d)) (set (filter P xs))"
    by (rule inj_onI) (simp add: cookies_inj [OF inv])
  ultimately show ?thesis by (simp add: distinct_map)
qed

lemma entries_member:
  assumes inv: "enumeration_invariant d xs" and x: "x \<in> set xs"
  shows "(entry_of (objects d) x \<in> set (map (entry_of (objects d)) (filter P xs))) = P x"
proof
  assume "entry_of (objects d) x \<in> set (map (entry_of (objects d)) (filter P xs))"
  then obtain x' where x': "x' \<in> set xs" "P x'"
    and same: "entry_of (objects d) x = entry_of (objects d) x'" by auto
  from cookies_inj [OF inv x x'(1) same] x'(2) show "P x" by simp
next
  assume "P x"
  with x show "entry_of (objects d) x \<in> set (map (entry_of (objects d)) (filter P xs))" by simp
qed

lemma VirtualReadDir_invariant:
  assumes inv: "enumeration_invariant d xs"
  shows "VirtualReadDir d c reporter =
    Some (accepted reporter []
      (map (entry_of (objects d)) (filter (\<lambda>x. c \<le> cookie (objects d x)) xs)))"
proof -
  from inv have r: "ring (objects d) xs"
    by (simp add: enumeration_invariant_def ring_invariant_def)
  show ?thesis
    unfolding VirtualReadDir_ring [OF r]
      dropWhile_sorted [OF cookies_increasing [OF inv], of c]
    by (rule refl)
qed

lemma resumed_filter:
  assumes inv1: "enumeration_invariant d1 xs1" and inv2: "enumeration_invariant d2 xs2"
    and ev: "evolves d1 d2" and y: "y \<in> set xs1"
  shows "filter (\<lambda>x. fst (entry_of (objects d1) y) \<le> cookie (objects d2 x)) xs2 =
    filter (\<lambda>x. y < x) xs2"
proof (rule filter_cong [OF refl])
  fix x
  assume x: "x \<in> set xs2"
  from inv2 have ci2: "cookie_invariant d2" by (simp add: enumeration_invariant_def)
  note Y = invariant_members [OF inv1 y] and X = invariant_members(1,2) [OF inv2 x]
  have nowrap: "cookie (objects d1 y) + 1 \<noteq> 0" using Y(3) by (rule succ_not_zero)
  from ev Y(2) have al: "y < allocated d2"
    and same: "entry_of (objects d2) y = entry_of (objects d1) y" by (simp_all add: evolves_def)
  from same have cookie: "cookie (objects d2 y) = cookie (objects d1 y)"
    by (simp add: entry_of_def)
  have "(fst (entry_of (objects d1) y) \<le> cookie (objects d2 x)) =
      (cookie (objects d1 y) < cookie (objects d2 x))"
    using succ_le_iff [OF nowrap] by (simp add: entry_of_def)
  also have "\<dots> = (y < x)"
    using cookie_less_iff [OF ci2 X Y(1) al] by (simp add: cookie)
  finally show "(fst (entry_of (objects d1) y) \<le> cookie (objects d2 x)) = (y < x)" .
qed

lemma resumed_enumeration:
  assumes inv1: "enumeration_invariant d1 xs1" and inv2: "enumeration_invariant d2 xs2"
    and ev: "evolves d1 d2" and y: "y \<in> set xs1"
  shows "\<exists>out. VirtualReadDir d2 (fst (entry_of (objects d1) y)) (\<lambda>reported e. True) = Some out \<and>
    distinct out \<and>
    (\<forall>x \<in> set xs1 \<inter> set xs2. (entry_of (objects d2) x \<in> set out) = listed_after xs1 y x)"
proof -
  let ?out = "map (entry_of (objects d2)) (filter (\<lambda>x. y < x) xs2)"
  from inv1 have srt: "sorted_wrt (<) xs1"
    by (simp add: enumeration_invariant_def ring_invariant_def)
  have "VirtualReadDir d2 (fst (entry_of (objects d1) y)) (\<lambda>reported e. True) = Some ?out"
    unfolding VirtualReadDir_invariant [OF inv2] resumed_filter [OF inv1 inv2 ev y]
    by (simp add: accepted_all)
  moreover have "distinct ?out" by (rule entries_distinct [OF inv2])
  moreover have "(entry_of (objects d2) x \<in> set ?out) = listed_after xs1 y x"
    if "x \<in> set xs1 \<inter> set xs2" for x
  proof -
    from that have x1: "x \<in> set xs1" and x2: "x \<in> set xs2" by simp_all
    show ?thesis
      unfolding entries_member [OF inv2 x2] listed_after_sorted [OF srt y x1] by (rule refl)
  qed
  ultimately show ?thesis by blast
qed

lemma reached_invariants:
  assumes bound: "counter_moves K (ops1 @ ops2) (NewRemoteOutputServiceDirectory m, w) < 2 ^ 64"
  shows "\<exists>xs1 xs2. enumeration_invariant (reached K m w ops1) xs1 \<and>
    enumeration_invariant (reached K m w (ops1 @ ops2)) xs2 \<and>
    evolves (reached K m w ops1) (reached K m w (ops1 @ ops2))"
proof -
  let ?new = "NewRemoteOutputServiceDirectory m"
  obtain d1 w1 where r1: "run K ops1 (?new, w) = (d1, w1)" by (cases "run K ops1 (?new, w)")
  have d1: "reached K m w ops1 = d1" by (simp add: reached_def r1)
  have d2: "reached K m w (ops1 @ ops2) = fst (run K ops2 (d1, w1))"
    by (simp add: reached_def run_append r1)
  have zero: "unat (changeID ?new) = 0" by (simp add: NewRemoteOutputServiceDirectory_def)
  have moves: "counter_moves K ops1 (?new, w) + counter_moves K ops2 (d1, w1) < 2 ^ 64"
    using bound by (simp add: counter_moves_append r1)
  then have c0: "unat (changeID ?new) + counter_moves K ops1 (?new, w) < 2 ^ 64"
    by (simp add: zero)
  from enumeration_invariant_run [OF enumeration_invariant_New c0]
  obtain xs1 where inv1: "enumeration_invariant d1 xs1"
    and ch1: "unat (changeID d1) \<le> counter_moves K ops1 (?new, w)" by (auto simp: r1 zero)
  have c1: "unat (changeID d1) + counter_moves K ops2 (d1, w1) < 2 ^ 64" using moves ch1 by simp
  from enumeration_invariant_run [OF inv1 c1]
  obtain xs2 where "enumeration_invariant (fst (run K ops2 (d1, w1))) xs2"
    and "evolves d1 (fst (run K ops2 (d1, w1)))" by blast
  with inv1 show ?thesis unfolding d1 d2 by blast
qed

text \<open>
  Claim C4. Take calls of the service, made from the empty registry, the state
  \<open>d1\<close> after the first calls \<open>ops1\<close> and the state \<open>d2\<close> after all of
  them; the change counter, a 64-bit integer that every creation of an output path
  and every cleaning of a registered output base increases by one, has been
  increased fewer than $2^{64}$ times. In both states the list holds the objects of
  the output base map, each once. In \<open>d2\<close> the cookies increase strictly along
  the list, an object made later than another has a larger cookie, whether they are
  still listed or not, and every object made before \<open>d1\<close> has the entry that it
  had in \<open>d1\<close>. VirtualReadDir returns: it offers the reporter the entries of
  the listed objects whose cookie is not below the given one, in the order of the
  list, until one is refused. Resumed in \<open>d2\<close> from the cookie that was reported
  with an object \<open>y\<close> listed in \<open>d1\<close>, it reports no entry twice, and it
  reports an object that is listed in both states exactly when that object came after
  \<open>y\<close> in the list of \<open>d1\<close>.
\<close>

theorem enumeration_resumable:
  fixes K :: "'w collaborators" and m :: int and w :: 'w
  assumes bound: "counter_moves K (ops1 @ ops2) (NewRemoteOutputServiceDirectory m, w) < 2 ^ 64"
  defines "d1 \<equiv> reached K m w ops1" and "d2 \<equiv> reached K m w (ops1 @ ops2)"
  shows "\<exists>xs1 xs2.
    ring (objects d1) xs1 \<and> set xs1 = ran (outputBaseIDs d1) \<and>
    ring (objects d2) xs2 \<and> set xs2 = ran (outputBaseIDs d2) \<and>
    sorted_wrt (<) (map (\<lambda>x. cookie (objects d2 x)) xs2) \<and>
    (\<forall>x y. 0 < x \<and> x < y \<and> y < allocated d2 \<longrightarrow>
       cookie (objects d2 x) < cookie (objects d2 y)) \<and>
    (\<forall>x. x < allocated d1 \<longrightarrow> entry_of (objects d2) x = entry_of (objects d1) x) \<and>
    (\<forall>c reporter. VirtualReadDir d2 c reporter =
       Some (accepted reporter []
         (map (entry_of (objects d2)) (filter (\<lambda>x. c \<le> cookie (objects d2 x)) xs2)))) \<and>
    (\<forall>y \<in> set xs1.
       \<exists>out. VirtualReadDir d2 (fst (entry_of (objects d1) y)) (\<lambda>reported e. True) = Some out \<and>
         distinct out \<and>
         (\<forall>x \<in> set xs1 \<inter> set xs2.
            (entry_of (objects d2) x \<in> set out) = listed_after xs1 y x))"
proof -
  from reached_invariants [OF bound] obtain xs1 xs2 where
    inv1: "enumeration_invariant d1 xs1" and inv2: "enumeration_invariant d2 xs2"
    and ev: "evolves d1 d2" unfolding d1_def d2_def by blast
  from inv1 have r1: "ring (objects d1) xs1" and s1: "set xs1 = ran (outputBaseIDs d1)"
    by (simp_all add: enumeration_invariant_def ring_invariant_def)
  from inv2 have r2: "ring (objects d2) xs2" and s2: "set xs2 = ran (outputBaseIDs d2)"
    by (simp_all add: enumeration_invariant_def ring_invariant_def)
  from inv2 have mono: "\<forall>x y. 0 < x \<and> x < y \<and> y < allocated d2 \<longrightarrow>
       cookie (objects d2 x) < cookie (objects d2 y)"
    by (simp add: enumeration_invariant_def cookie_invariant_def)
  from ev have keep: "\<forall>x. x < allocated d1 \<longrightarrow>
      entry_of (objects d2) x = entry_of (objects d1) x" by (simp add: evolves_def)
  note srt = cookies_increasing [OF inv2]
  note rd = VirtualReadDir_invariant [OF inv2]
  note res = resumed_enumeration [OF inv1 inv2 ev]
  show ?thesis
  proof (rule exI [of _ xs1], rule exI [of _ xs2], intro conjI allI ballI)
    show "ring (objects d1) xs1" by (rule r1)
    show "set xs1 = ran (outputBaseIDs d1)" by (rule s1)
    show "ring (objects d2) xs2" by (rule r2)
    show "set xs2 = ran (outputBaseIDs d2)" by (rule s2)
    show "sorted_wrt (<) (map (\<lambda>x. cookie (objects d2 x)) xs2)" by (rule srt)
    show "0 < x \<and> x < y \<and> y < allocated d2 \<longrightarrow>
       cookie (objects d2 x) < cookie (objects d2 y)" for x y using mono by blast
    show "x < allocated d1 \<longrightarrow> entry_of (objects d2) x = entry_of (objects d1) x" for x
      using keep by blast
    show "VirtualReadDir d2 c reporter =
       Some (accepted reporter []
         (map (entry_of (objects d2)) (filter (\<lambda>x. c \<le> cookie (objects d2 x)) xs2)))"
      for c reporter by (rule rd)
    show "\<exists>out. VirtualReadDir d2 (fst (entry_of (objects d1) y)) (\<lambda>reported e. True) = Some out \<and>
         distinct out \<and>
         (\<forall>x \<in> set xs1 \<inter> set xs2.
            (entry_of (objects d2) x \<in> set out) = listed_after xs1 y x)"
      if "y \<in> set xs1" for y using that by (rule res)
  qed
qed

theorem enumeration_resumable_witness:
  "counter_moves K2 (first_calls @ later_calls)
     (NewRemoteOutputServiceDirectory 100, empty_world) = 4 \<and>
   ring (objects (reached K2 100 empty_world first_calls)) [1, 2] \<and>
   ring (objects (reached K2 100 empty_world (first_calls @ later_calls))) [2, 3] \<and>
   fst (entry_of (objects (reached K2 100 empty_world first_calls)) 1) = 1 \<and>
   VirtualReadDir (reached K2 100 empty_world (first_calls @ later_calls)) 1
       (\<lambda>reported e. True) =
     Some (map (entry_of (objects (reached K2 100 empty_world (first_calls @ later_calls))))
       [2, 3]) \<and>
   map fst (map (entry_of (objects (reached K2 100 empty_world (first_calls @ later_calls))))
       [2, 3]) = [2, 4] \<and>
   distinct (map (entry_of (objects (reached K2 100 empty_world (first_calls @ later_calls))))
       [2, 3])"
proof -
  let ?d1 = "reached K2 100 empty_world first_calls"
  let ?d2 = "reached K2 100 empty_world (first_calls @ later_calls)"
  have moves: "counter_moves K2 (first_calls @ later_calls)
      (NewRemoteOutputServiceDirectory 100, empty_world) = 4" by code_simp
  have bound: "counter_moves K2 (first_calls @ later_calls)
      (NewRemoteOutputServiceDirectory 100, empty_world) < 2 ^ 64" unfolding moves by simp
  have r1: "ring (objects ?d1) [1, 2]" by code_simp
  have r2: "ring (objects ?d2) [2, 3]" by code_simp
  have c1: "fst (entry_of (objects ?d1) 1) = 1" by code_simp
  have c2: "cookie (objects ?d2 2) = 1" by code_simp
  have c3: "cookie (objects ?d2 3) = 3" by code_simp
  from enumeration_resumable [OF bound] obtain xs1 xs2 where
    x1: "ring (objects ?d1) xs1" and x2: "ring (objects ?d2) xs2"
    and rd: "\<forall>c reporter. VirtualReadDir ?d2 c reporter =
       Some (accepted reporter []
         (map (entry_of (objects ?d2)) (filter (\<lambda>x. c \<le> cookie (objects ?d2 x)) xs2)))"
    and res: "\<forall>y \<in> set xs1.
       \<exists>out. VirtualReadDir ?d2 (fst (entry_of (objects ?d1) y)) (\<lambda>reported e. True) = Some out \<and>
         distinct out \<and>
         (\<forall>x \<in> set xs1 \<inter> set xs2.
            (entry_of (objects ?d2) x \<in> set out) = listed_after xs1 y x)"
    by blast
  have xs1: "xs1 = [1, 2]" using x1 r1 by (rule ring_unique)
  have xs2: "xs2 = [2, 3]" using x2 r2 by (rule ring_unique)
  have "VirtualReadDir ?d2 1 (\<lambda>reported e. True) =
      Some (map (entry_of (objects ?d2)) (filter (\<lambda>x. 1 \<le> cookie (objects ?d2 x)) [2, 3]))"
    using rd by (simp add: accepted_all xs2)
  then have read: "VirtualReadDir ?d2 1 (\<lambda>reported e. True) =
      Some (map (entry_of (objects ?d2)) [2, 3])" by (simp add: c2 c3)
  have cookies: "map fst (map (entry_of (objects ?d2)) [2, 3]) = [2, 4]"
    by (simp add: entry_of_def c2 c3)
  have "1 \<in> set xs1" by (simp add: xs1)
  with res obtain out where
    "VirtualReadDir ?d2 (fst (entry_of (objects ?d1) 1)) (\<lambda>reported e. True) = Some out"
    and "distinct out" by blast
  with read c1 have once: "distinct (map (entry_of (objects ?d2)) [2, 3])" by simp
  show ?thesis by (intro conjI moves r1 r2 c1 read cookies once)
qed

subsection \<open>The bound on the change counter\<close>

lemma StartBuild_registry_request:
  assumes "StartBuild_request K request = Inr (ob, v, f)"
  shows "fst (snd (snd (StartBuild K request d w))) =
    fst (snd (StartBuild_locked K (BuildId request) ob f v d w))"
  using assms by (simp add: StartBuild_def split: prod.splits option.splits)

lemma StartBuild_request_K2:
  "StartBuild_request K2 (request_for ''a'' b) =
     Inr (''a'', strip_root [Name ''out'', Name ''a''], (''main'', 1))"
  "StartBuild_request K2 (request_for ''b'' b) =
     Inr (''b'', strip_root [Name ''out'', Name ''b''], (''main'', 1))"
  "StartBuild_request K2 (request_for ''c'' b) =
     Inr (''c'', strip_root [Name ''out'', Name ''c''], (''main'', 1))"
  "StartBuild_request K2 (request_for ''e'' b) =
     Inr (''e'', strip_root [Name ''out'', Name ''e''], (''main'', 1))"
  by (simp_all add: StartBuild_request_def request_for_def K2_def memory_collaborators_def
      parse_path_def to_pcomp_def NewComponent_def)

lemma StartBuild_K2_fresh:
  fixes w :: world
  assumes request: "StartBuild_request K2 (request_for ob b) = Inr (ob, v, f)"
    and reg: "registry_invariant d" and ri: "ring_invariant d xs"
    and fresh: "buildIDs d b = None" "outputBaseIDs d ob = None"
  defines "d' \<equiv> fst (step K2 (StartBuildOp (request_for ob b)) (d, w))"
  shows "registry_invariant d'" and "ring_invariant d' (xs @ [allocated d])"
    and "outputBaseIDs d' = (outputBaseIDs d)(ob \<mapsto> allocated d)"
    and "buildIDs d' = (buildIDs d)(b \<mapsto> allocated d)"
    and "allocated d' = Suc (allocated d)"
    and "changeID d' = changeID d + 1"
    and "buildState (objects d' (allocated d)) =
           Some \<lparr>build_id = b, digestFunction = f, scopeWalkerFactory = v\<rparr>"
    and "cookie (objects d' q) = (if q = allocated d then changeID d else cookie (objects d q))"
proof -
  have b: "BuildId (request_for ob b) = b" by (simp add: request_for_def)
  have d': "d' = fst (snd (StartBuild_locked K2 b ob f v d w))"
    using StartBuild_registry_request [OF request, of d w] by (simp add: d'_def b)
  note F = StartBuild_locked_fresh [OF fresh, of K2 f v w]
  show "registry_invariant d'" unfolding d' by (rule registry_invariant_StartBuild_locked [OF reg])
  show "ring_invariant d' (xs @ [allocated d])"
    using ring_invariant_StartBuild_locked [OF reg ri, of K2 b ob f v w] fresh
    by (simp add: d')
  show "outputBaseIDs d' = (outputBaseIDs d)(ob \<mapsto> allocated d)" unfolding d' by (rule F)
  show "buildIDs d' = (buildIDs d)(b \<mapsto> allocated d)" unfolding d' by (rule F)
  show "allocated d' = Suc (allocated d)" unfolding d' by (rule F)
  show "changeID d' = changeID d + 1" unfolding d' by (rule F)
  show "buildState (objects d' (allocated d)) =
      Some \<lparr>build_id = b, digestFunction = f, scopeWalkerFactory = v\<rparr>"
    unfolding d' by (simp add: F)
  show "cookie (objects d' q) = (if q = allocated d then changeID d else cookie (objects d q))"
    unfolding d' by (rule F)
qed

lemma Clean_K2_b:
  assumes "outputBaseIDs d ''b'' = Some p"
  shows "fst (step K2 (CleanOp ''b'') (d, w)) = Clean_locked ''b'' p d"
  using assms by (simp add: Clean_def NewComponent_def K2_def memory_collaborators_def)

lemma only_a_start:
  shows "only_a (fst (step K2 (StartBuildOp (request_for ''a'' ''ba''))
     (NewRemoteOutputServiceDirectory m, w)))"
  and "changeID (fst (step K2 (StartBuildOp (request_for ''a'' ''ba''))
     (NewRemoteOutputServiceDirectory m, w))) = 1"
  and "allocated (fst (step K2 (StartBuildOp (request_for ''a'' ''ba''))
     (NewRemoteOutputServiceDirectory m, w))) = 2"
proof -
  let ?new = "NewRemoteOutputServiceDirectory m"
  let ?d = "fst (step K2 (StartBuildOp (request_for ''a'' ''ba'')) (?new, w))"
  have ri0: "ring_invariant ?new []"
    using enumeration_invariant_New [of m] by (simp add: enumeration_invariant_def)
  have fresh: "buildIDs ?new ''ba'' = None" "outputBaseIDs ?new ''a'' = None"
    by (simp_all add: NewRemoteOutputServiceDirectory_def)
  have al: "allocated ?new = 1" and ch: "changeID ?new = 0"
    and obs: "outputBaseIDs ?new = Map.empty" and bs: "buildIDs ?new = Map.empty"
    by (simp_all add: NewRemoteOutputServiceDirectory_def)
  note S = StartBuild_K2_fresh [OF StartBuild_request_K2(1) registry_invariant_New ri0 fresh,
      of w]
  have "registry_invariant ?d" by (rule S)
  moreover have "ring_invariant ?d [1]" using S(2) by (simp add: al)
  moreover have "outputBaseIDs ?d = [''a'' \<mapsto> 1]" using S(3) by (simp add: al obs)
  moreover have "buildIDs ?d = [''ba'' \<mapsto> 1]" using S(4) by (simp add: al bs)
  moreover have "cookie (objects ?d 1) = 0" using S(8) [of 1] by (simp add: al ch)
  ultimately show "only_a ?d" unfolding only_a_def by blast
  show "changeID ?d = 1" using S(6) by (simp add: ch)
  show "allocated ?d = 2" using S(5) by (simp add: al)
qed

lemma only_a_pair:
  fixes w :: world
  assumes a: "only_a d"
  defines "d' \<equiv>
    fst (run K2 [StartBuildOp (request_for ''b'' ''bb''), CleanOp ''b''] (d, w))"
  shows "only_a d'" and "changeID d' = changeID d + 2" and "allocated d' = Suc (allocated d)"
proof -
  from a have reg: "registry_invariant d" and ri: "ring_invariant d [1]"
    and obs: "outputBaseIDs d = [''a'' \<mapsto> 1]" and bs: "buildIDs d = [''ba'' \<mapsto> 1]"
    and c: "cookie (objects d 1) = 0" by (simp_all add: only_a_def)
  from ri have al: "1 < allocated d" by (simp add: ring_invariant_def)
  obtain d1 w1 where s1: "step K2 (StartBuildOp (request_for ''b'' ''bb'')) (d, w) = (d1, w1)"
    by (cases "step K2 (StartBuildOp (request_for ''b'' ''bb'')) (d, w)")
  have fresh: "buildIDs d ''bb'' = None" "outputBaseIDs d ''b'' = None" by (simp_all add: obs bs)
  note S = StartBuild_K2_fresh [OF StartBuild_request_K2(2) reg ri fresh, of w, unfolded s1 fst_conv]
  have ob: "outputBaseIDs d1 ''b'' = Some (allocated d)" by (simp add: S(3))
  have d': "d' = Clean_locked ''b'' (allocated d) d1"
    using Clean_K2_b [OF ob, of w1] by (simp add: d'_def s1 del: step.simps)
  note C = Clean_locked_fields [OF ob]
  have "registry_invariant d'" unfolding d' by (rule registry_invariant_Clean_locked [OF S(1)])
  moreover have "ring_invariant d' [1]"
    using ring_invariant_Clean_locked [OF S(1) S(2) ob] al by (simp add: d')
  moreover have "outputBaseIDs d' = [''a'' \<mapsto> 1]"
    unfolding d' C(1) S(3) obs by (rule ext) simp
  moreover have "buildIDs d' = [''ba'' \<mapsto> 1]"
    unfolding d' C(2) S(7) S(4) bs by (rule ext) simp
  moreover have "cookie (objects d' 1) = 0" using al c by (simp add: d' C(8) S(8))
  ultimately show "only_a d'" unfolding only_a_def by blast
  show "changeID d' = changeID d + 2" by (simp add: d' C(4) S(6))
  show "allocated d' = Suc (allocated d)" by (simp add: d' C(3) S(5))
qed

lemma only_a_loop:
  assumes "only_a d"
  shows "only_a (fst (run K2
           (concat (replicate n [StartBuildOp (request_for ''b'' ''bb''), CleanOp ''b'']))
           (d, w))) \<and>
    changeID (fst (run K2
           (concat (replicate n [StartBuildOp (request_for ''b'' ''bb''), CleanOp ''b'']))
           (d, w))) = changeID d + 2 * of_nat n \<and>
    allocated (fst (run K2
           (concat (replicate n [StartBuildOp (request_for ''b'' ''bb''), CleanOp ''b'']))
           (d, w))) = allocated d + n"
  using assms
proof (induction n arbitrary: d w)
  case 0
  then show ?case by simp
next
  case (Suc n)
  let ?pair = "[StartBuildOp (request_for ''b'' ''bb''), CleanOp ''b'']"
  obtain d1 w1 where p: "run K2 ?pair (d, w) = (d1, w1)" by (cases "run K2 ?pair (d, w)")
  note P = only_a_pair [OF Suc.prems, of w, unfolded p fst_conv]
  have unfold: "run K2 (concat (replicate (Suc n) ?pair)) (d, w) =
      run K2 (concat (replicate n ?pair)) (d1, w1)"
    using p run_append [of K2 ?pair "concat (replicate n ?pair)" "(d, w)"] by simp
  from Suc.IH [OF P(1), of w1] show ?case
    unfolding unfold by (simp add: P(2) P(3) algebra_simps)
qed

lemma wrapping_calls_reached:
  fixes n :: nat
  defines "d \<equiv> reached K2 100 empty_world (wrapping_calls n)"
  shows "ring (objects d) [1, n + 2, n + 3]"
    and "cookie (objects d 1) = 0"
    and "cookie (objects d (n + 2)) = 1 + 2 * of_nat n"
    and "cookie (objects d (n + 3)) = 2 + 2 * of_nat n"
    and "outputBaseIDs d = [''a'' \<mapsto> 1, ''c'' \<mapsto> n + 2, ''e'' \<mapsto> n + 3]"
proof -
  let ?new = "NewRemoteOutputServiceDirectory 100"
  let ?pair = "[StartBuildOp (request_for ''b'' ''bb''), CleanOp ''b'']"
  obtain da wa where sa: "step K2 (StartBuildOp (request_for ''a'' ''ba'')) (?new, empty_world)
      = (da, wa)"
    by (cases "step K2 (StartBuildOp (request_for ''a'' ''ba'')) (?new, empty_world)")
  note A = only_a_start [of 100 empty_world, unfolded sa fst_conv]
  obtain dn wn where sn: "run K2 (concat (replicate n ?pair)) (da, wa) = (dn, wn)"
    by (cases "run K2 (concat (replicate n ?pair)) (da, wa)")
  from only_a_loop [OF A(1), of n wa] have an: "only_a dn"
    and chn: "changeID dn = 1 + 2 * of_nat n" and aln: "allocated dn = n + 2"
    by (simp_all add: sn A(2) A(3))
  from an have regn: "registry_invariant dn" and rin: "ring_invariant dn [1]"
    and obsn: "outputBaseIDs dn = [''a'' \<mapsto> 1]" and bsn: "buildIDs dn = [''ba'' \<mapsto> 1]"
    and cn: "cookie (objects dn 1) = 0" by (simp_all add: only_a_def)
  obtain dc wc where sc: "step K2 (StartBuildOp (request_for ''c'' ''bc'')) (dn, wn) = (dc, wc)"
    by (cases "step K2 (StartBuildOp (request_for ''c'' ''bc'')) (dn, wn)")
  have freshc: "buildIDs dn ''bc'' = None" "outputBaseIDs dn ''c'' = None"
    by (simp_all add: obsn bsn)
  note C = StartBuild_K2_fresh [OF StartBuild_request_K2(3) regn rin freshc, of wn,
      unfolded sc fst_conv aln chn]
  obtain de we where se: "step K2 (StartBuildOp (request_for ''e'' ''be'')) (dc, wc) = (de, we)"
    by (cases "step K2 (StartBuildOp (request_for ''e'' ''be'')) (dc, wc)")
  have freshe: "buildIDs dc ''be'' = None" "outputBaseIDs dc ''e'' = None"
    by (simp_all add: C(3) C(4) obsn bsn)
  have alc: "allocated dc = n + 3" by (simp add: C(5))
  have chc: "changeID dc = 2 + 2 * of_nat n" by (simp add: C(6))
  note E = StartBuild_K2_fresh [OF StartBuild_request_K2(4) C(1) C(2) freshe, of wc,
      unfolded se fst_conv alc chc]
  let ?last = "[StartBuildOp (request_for ''c'' ''bc''), StartBuildOp (request_for ''e'' ''be'')]"
  have "run K2 (wrapping_calls n) (?new, empty_world) =
      run K2 (concat (replicate n ?pair) @ ?last) (da, wa)"
    by (simp add: wrapping_calls_def sa del: step.simps)
  also have "\<dots> = run K2 ?last (dn, wn)" by (simp only: run_append sn)
  also have "\<dots> = (de, we)" by (simp add: sc se del: step.simps)
  finally have d: "d = de" by (simp add: d_def reached_def)
  have "ring_invariant de ([1] @ [n + 2] @ [n + 3])" using E(2) by simp
  then show "ring (objects d) [1, n + 2, n + 3]" by (simp add: d ring_invariant_def)
  show "cookie (objects d 1) = 0" unfolding d using cn by (simp add: E(8) C(8))
  show "cookie (objects d (n + 2)) = 1 + 2 * of_nat n" unfolding d by (simp add: E(8) C(8))
  show "cookie (objects d (n + 3)) = 2 + 2 * of_nat n" unfolding d by (simp add: E(8))
  show "outputBaseIDs d = [''a'' \<mapsto> 1, ''c'' \<mapsto> n + 2, ''e'' \<mapsto> n + 3]"
    unfolding d by (simp add: E(3) C(3) obsn)
qed

lemma length_wrapping_calls: "length (wrapping_calls n) = 2 * n + 3"
  by (simp add: wrapping_calls_def length_concat sum_list_replicate)

text \<open>
  The bound on the change counter cannot be dropped from the theorem above: the
  counter is a 64-bit integer, and it wraps when it is increased $2^{64}$ times.
  After the $2^{64} + 1$ calls below, each of which increases it, the list holds the
  output bases \<open>a\<close>, \<open>c\<close> and \<open>e\<close>, in this order, with the cookies
  $0$, $2^{64} - 1$ and $0$, and VirtualReadDir, resumed from the cookie $0$ that it
  reports with \<open>c\<close>, reports \<open>a\<close> and \<open>c\<close> again. No run of the service
  receives that many calls.
\<close>

lemma change_counter_wraps:
  "length (wrapping_calls (2 ^ 63 - 1)) = 2 ^ 64 + 1 \<and>
   ring (objects (reached K2 100 empty_world (wrapping_calls (2 ^ 63 - 1))))
     [1, 2 ^ 63 + 1, 2 ^ 63 + 2] \<and>
   outputBaseIDs (reached K2 100 empty_world (wrapping_calls (2 ^ 63 - 1))) =
     [''a'' \<mapsto> 1, ''c'' \<mapsto> 2 ^ 63 + 1, ''e'' \<mapsto> 2 ^ 63 + 2] \<and>
   map (\<lambda>x. cookie (objects (reached K2 100 empty_world (wrapping_calls (2 ^ 63 - 1))) x))
     [1, 2 ^ 63 + 1, 2 ^ 63 + 2] = [0, 2 ^ 64 - 1, 0] \<and>
   fst (entry_of (objects (reached K2 100 empty_world (wrapping_calls (2 ^ 63 - 1))))
     (2 ^ 63 + 1)) = 0 \<and>
   VirtualReadDir (reached K2 100 empty_world (wrapping_calls (2 ^ 63 - 1))) 0
       (\<lambda>reported e. True) =
     Some (map (entry_of (objects (reached K2 100 empty_world (wrapping_calls (2 ^ 63 - 1)))))
       [1, 2 ^ 63 + 1, 2 ^ 63 + 2])"
proof -
  let ?n = "2 ^ 63 - 1 :: nat"
  let ?d = "reached K2 100 empty_world (wrapping_calls ?n)"
  have p: "?n + 2 = 2 ^ 63 + 1" and q: "?n + 3 = 2 ^ 63 + 2" by simp_all
  have c: "1 + 2 * of_nat ?n = (2 ^ 64 - 1 :: 64 word)"
    and e: "2 + 2 * of_nat ?n = (0 :: 64 word)" by simp_all
  note W = wrapping_calls_reached [of ?n, unfolded p q c e]
  have len: "length (wrapping_calls ?n) = 2 ^ 64 + 1"
    unfolding length_wrapping_calls by simp
  have cookies: "map (\<lambda>x. cookie (objects ?d x)) [1, 2 ^ 63 + 1, 2 ^ 63 + 2] = [0, 2 ^ 64 - 1, 0]"
    using W(2) W(3) W(4) by simp
  have reported: "fst (entry_of (objects ?d) (2 ^ 63 + 1)) = 0"
    using W(3) by (simp add: entry_of_def)
  have read: "VirtualReadDir ?d 0 (\<lambda>reported e. True) =
      Some (map (entry_of (objects ?d)) [1, 2 ^ 63 + 1, 2 ^ 63 + 2])"
    unfolding VirtualReadDir_ring [OF W(1)] accepted_all by simp
  from len W(1) W(5) cookies reported read show ?thesis by blast
qed

end
